theory Spec2Isabelle
  imports Main "HOL-Library.Word"
begin

unbundle bit_operations_syntax

section \<open>The versioned record node of tuple.h\<close>

text \<open>
  A shallow embedding of \<^verbatim>\<open>struct dbtuple\<close> (tuple.h). The embedding is of the
  checked build: every \<^verbatim>\<open>INVARIANT(...)\<close> of the source is a branch that returns
  \<open>Inl InvariantViolation\<close>. The execution model is one thread: while a function of
  the node runs, no other thread stores to the node. A spin loop of the source that waits
  for another thread (\<^verbatim>\<open>lock\<close>, \<^verbatim>\<open>stable_version\<close>) therefore either leaves at
  once or never; never returning is the value \<open>None\<close>.
\<close>

subsection \<open>Types and constants\<close>

type_synonym version_t = "32 word"
type_synonym node_size_type = "16 word"
type_synonym tid_t = "64 word"
type_synonym byte = "8 word"

text \<open>
  \<^verbatim>\<open>size_type\<close> is \<^verbatim>\<open>size_t\<close>. The source only compares values of this type, or
  does arithmetic on them after \<^verbatim>\<open>INVARIANT(sz <= 65535)\<close>, so no operation on them can
  wrap and they are natural numbers here.
\<close>

type_synonym size_type = nat

text \<open>A \<^verbatim>\<open>dbtuple *\<close> is an index into the store, \<open>None\<close> is the null pointer.\<close>

type_synonym ptr = "nat option"

datatype error = InvariantViolation | MemoryFault

definition MIN_TID :: tid_t where
  "MIN_TID = 0"

definition MAX_TID :: tid_t where
  "MAX_TID = - 1"

definition HDR_LOCKED_MASK :: version_t where
  "HDR_LOCKED_MASK = 0x1"

definition HDR_TYPE_SHIFT :: nat where
  "HDR_TYPE_SHIFT = 1"

definition HDR_TYPE_MASK :: version_t where
  "HDR_TYPE_MASK = push_bit HDR_TYPE_SHIFT 0x1"

definition HDR_DELETING_SHIFT :: nat where
  "HDR_DELETING_SHIFT = 2"

definition HDR_DELETING_MASK :: version_t where
  "HDR_DELETING_MASK = push_bit HDR_DELETING_SHIFT 0x1"

definition HDR_ENQUEUED_SHIFT :: nat where
  "HDR_ENQUEUED_SHIFT = 3"

definition HDR_ENQUEUED_MASK :: version_t where
  "HDR_ENQUEUED_MASK = push_bit HDR_ENQUEUED_SHIFT 0x1"

definition HDR_LATEST_SHIFT :: nat where
  "HDR_LATEST_SHIFT = 4"

definition HDR_LATEST_MASK :: version_t where
  "HDR_LATEST_MASK = push_bit HDR_LATEST_SHIFT 0x1"

definition HDR_VERSION_SHIFT :: nat where
  "HDR_VERSION_SHIFT = 5"

definition HDR_VERSION_MASK :: version_t where
  "HDR_VERSION_MASK = push_bit HDR_VERSION_SHIFT (- 1)"

text \<open>\<^verbatim>\<open>std::numeric_limits<node_size_type>::max()\<close>\<close>

definition node_size_max :: nat where
  "node_size_max = 65535"

subsection \<open>The header word\<close>

definition IsLocked :: "version_t \<Rightarrow> bool" where
  "IsLocked v = (v AND HDR_LOCKED_MASK \<noteq> 0)"

definition IsBigType :: "version_t \<Rightarrow> bool" where
  "IsBigType v = (v AND HDR_TYPE_MASK \<noteq> 0)"

definition IsDeleting :: "version_t \<Rightarrow> bool" where
  "IsDeleting v = (v AND HDR_DELETING_MASK \<noteq> 0)"

definition IsEnqueued :: "version_t \<Rightarrow> bool" where
  "IsEnqueued v = (v AND HDR_ENQUEUED_MASK \<noteq> 0)"

definition IsLatest :: "version_t \<Rightarrow> bool" where
  "IsLatest v = (v AND HDR_LATEST_MASK \<noteq> 0)"

definition Version :: "version_t \<Rightarrow> version_t" where
  "Version v = drop_bit HDR_VERSION_SHIFT (v AND HDR_VERSION_MASK)"

subsection \<open>The node\<close>

text \<open>
  The fields of \<^verbatim>\<open>struct dbtuple\<close>. The trailing union \<^verbatim>\<open>d[0]\<close> is the pair of
  \<open>big_next\<close> (\<^verbatim>\<open>d->big.next\<close>, a slot that only a big node has; the source reads and
  writes it for big nodes only) and \<open>value_start\<close>, the inline buffer that follows,
  as the list of its bytes. The field \<^verbatim>\<open>size\<close> is \<open>size_f\<close>.
\<close>

record dbtuple =
  hdr :: version_t
  version :: tid_t
  size_f :: node_size_type
  alloc_size :: node_size_type
  big_next :: ptr
  value_start :: "byte list"

type_synonym store = "dbtuple list"

definition is_locked :: "dbtuple \<Rightarrow> bool" where
  "is_locked n = IsLocked (hdr n)"

definition is_big_type :: "dbtuple \<Rightarrow> bool" where
  "is_big_type n = IsBigType (hdr n)"

definition is_small_type :: "dbtuple \<Rightarrow> bool" where
  "is_small_type n = (\<not> is_big_type n)"

definition is_deleting :: "dbtuple \<Rightarrow> bool" where
  "is_deleting n = IsDeleting (hdr n)"

definition is_enqueued :: "dbtuple \<Rightarrow> bool" where
  "is_enqueued n = IsEnqueued (hdr n)"

definition is_latest :: "dbtuple \<Rightarrow> bool" where
  "is_latest n = IsLatest (hdr n)"

text \<open>\<^verbatim>\<open>sizeof(dbtuple)\<close>: the struct is \<^verbatim>\<open>PACKED\<close>, so 4 + 8 + 2 + 2 bytes.\<close>

definition sizeof_dbtuple :: nat where
  "sizeof_dbtuple = 16"

text \<open>\<^verbatim>\<open>sizeof(dbtuple *)\<close> on amd64.\<close>

definition sizeof_ptr :: nat where
  "sizeof_ptr = 8"

definition base_size :: "dbtuple \<Rightarrow> nat" where
  "base_size n = (if is_big_type n then sizeof_dbtuple + sizeof_ptr else sizeof_dbtuple)"

subsection \<open>lock and unlock\<close>

text \<open>
  \<^verbatim>\<open>lock\<close>: \<open>lock_spin\<close> is the loop, entered with the header just read. With no other
  thread, the header read again in the loop body is the same, and the compare-and-swap
  finds the value it expects.
\<close>

definition compare_and_swap_hdr :: "dbtuple \<Rightarrow> version_t \<Rightarrow> version_t \<Rightarrow> bool \<times> dbtuple" where
  "compare_and_swap_hdr n expected desired =
     (if hdr n = expected then (True, n\<lparr>hdr := desired\<rparr>) else (False, n))"

partial_function (option) lock_spin :: "dbtuple \<Rightarrow> version_t \<Rightarrow> dbtuple option" where
  "lock_spin n v =
     (if IsLocked v then lock_spin n (hdr n)
      else case compare_and_swap_hdr n v (v OR HDR_LOCKED_MASK) of
             (swapped, n') \<Rightarrow> if swapped then Some n' else lock_spin n' (hdr n'))"

definition lock :: "dbtuple \<Rightarrow> (error + dbtuple \<times> version_t) option" where
  "lock n =
     (case lock_spin n (hdr n) of
        None \<Rightarrow> None
      | Some n' \<Rightarrow>
          if \<not> IsLocked (hdr n') then Some (Inl InvariantViolation)
          else Some (Inr (n', hdr n')))"

definition unlock :: "dbtuple \<Rightarrow> error + dbtuple" where
  "unlock n =
     (let v = hdr n in
      if \<not> IsLocked v then Inl InvariantViolation
      else
        let c = Version v;
            v1 = v AND NOT HDR_VERSION_MASK;
            v2 = v1 OR (push_bit HDR_VERSION_SHIFT (c + 1) AND HDR_VERSION_MASK);
            v3 = v2 AND NOT HDR_LOCKED_MASK
        in if IsLocked v3 then Inl InvariantViolation
           else Inr (n\<lparr>hdr := v3\<rparr>))"

subsection \<open>Accessors\<close>

definition set_latest :: "dbtuple \<Rightarrow> bool \<Rightarrow> error + dbtuple" where
  "set_latest n latest =
     (if \<not> is_locked n then Inl InvariantViolation
      else if latest then Inr (n\<lparr>hdr := hdr n OR HDR_LATEST_MASK\<rparr>)
      else Inr (n\<lparr>hdr := hdr n AND NOT HDR_LATEST_MASK\<rparr>))"

text \<open>
  \<^verbatim>\<open>stable_version\<close>: \<open>stable_version_spin\<close> is the loop, entered with the header
  just read.
\<close>

partial_function (option) stable_version_spin :: "dbtuple \<Rightarrow> version_t \<Rightarrow> version_t option" where
  "stable_version_spin n v = (if IsLocked v then stable_version_spin n (hdr n) else Some v)"

definition stable_version :: "dbtuple \<Rightarrow> version_t option" where
  "stable_version n = stable_version_spin n (hdr n)"

definition unstable_version :: "dbtuple \<Rightarrow> version_t" where
  "unstable_version n = hdr n"

definition check_version :: "dbtuple \<Rightarrow> version_t \<Rightarrow> bool" where
  "check_version n v = (hdr n = v)"

definition get_next :: "dbtuple \<Rightarrow> ptr" where
  "get_next n = (if is_big_type n then big_next n else None)"

definition get_next_v :: "dbtuple \<Rightarrow> version_t \<Rightarrow> error + ptr" where
  "get_next_v n v =
     (if IsBigType v \<noteq> IsBigType (hdr n) then Inl InvariantViolation
      else if IsBigType v then Inr (big_next n)
      else Inr None)"

definition set_next :: "dbtuple \<Rightarrow> ptr \<Rightarrow> error + dbtuple" where
  "set_next n nxt =
     (if \<not> is_big_type n then Inl InvariantViolation
      else Inr (n\<lparr>big_next := nxt\<rparr>))"

text \<open>
  \<^verbatim>\<open>get_value_start(v)\<close>: the address of the inline buffer, which is the buffer itself
  here, for a big node as for a small one.
\<close>

definition get_value_start :: "dbtuple \<Rightarrow> version_t \<Rightarrow> error + byte list" where
  "get_value_start n v =
     (if IsBigType v \<noteq> IsBigType (hdr n) then Inl InvariantViolation
      else if IsBigType v then Inr (value_start n)
      else Inr (value_start n))"

definition is_not_behind :: "dbtuple \<Rightarrow> tid_t \<Rightarrow> bool" where
  "is_not_behind n t = (version n \<le> t)"

subsection \<open>Memory\<close>

text \<open>
  \<^verbatim>\<open>NDB_MEMCPY(dst, src, n)\<close> on buffers that are lists of bytes: the result is the new
  content of \<open>dst\<close>. Copying more bytes than either buffer holds is undefined in the
  source and \<open>MemoryFault\<close> here.
\<close>

definition NDB_MEMCPY :: "byte list \<Rightarrow> byte list \<Rightarrow> nat \<Rightarrow> error + byte list" where
  "NDB_MEMCPY dst src n =
     (if n \<le> length src \<and> n \<le> length dst then Inr (take n src @ drop n dst)
      else Inl MemoryFault)"

text \<open>\<^verbatim>\<open>r.assign(src, n)\<close> of \<^verbatim>\<open>std::string\<close>: the first \<open>n\<close> bytes at \<open>src\<close>.\<close>

definition string_assign :: "byte list \<Rightarrow> nat \<Rightarrow> error + byte list" where
  "string_assign src n = (if n \<le> length src then Inr (take n src) else Inl MemoryFault)"

text \<open>
  \<^verbatim>\<open>malloc(n)\<close>: a block of \<open>n\<close> bytes. Running out of memory is outside the
  model, so \<^verbatim>\<open>INVARIANT(p)\<close> always holds. The source reads of a buffer only bytes that
  it wrote before, so the content of a fresh block is immaterial; it is zeros here.
\<close>

definition malloc :: "nat \<Rightarrow> byte list" where
  "malloc n = replicate n 0"

text \<open>
  Modelled from the spec: \<^verbatim>\<open>util::round_up<T, lgbase>\<close> of util.h, which is not among
  the sources. The spec: allocation sizes are rounded up to a power-of-two-based class
  (base exponent = 4, i.e. multiples of 16 bytes).
\<close>

definition round_up :: "nat \<Rightarrow> nat \<Rightarrow> nat" where
  "round_up lgbase t = ((t + (2 ^ lgbase - 1)) div 2 ^ lgbase) * 2 ^ lgbase"

subsection \<open>Constructors and allocation\<close>

definition CheckBounds :: "size_type \<Rightarrow> error + node_size_type" where
  "CheckBounds s = (if s \<le> node_size_max then Inr (of_nat s) else Inl InvariantViolation)"

text \<open>
  The two constructors, placed on the block \<open>p\<close> that \<^verbatim>\<open>malloc\<close> returned: the inline
  buffer is what follows the fixed fields (and the pointer slot of a big node) in the
  block. \<open>dbtuple_ctor_empty\<close> is \<^verbatim>\<open>dbtuple(bool do_big_type, size_type alloc_size)\<close>;
  a small node has no pointer slot and its \<open>big_next\<close> is \<open>None\<close> for good.
  \<open>dbtuple_ctor_value\<close> is \<^verbatim>\<open>dbtuple(version, r, size, alloc_size, next, set_latest)\<close>.
  The assertion of the first constructor on the layout (the union starts where the fixed
  fields end) holds of the packed struct and has no counterpart here. The event counters
  are not part of the model.
\<close>

definition dbtuple_ctor_empty :: "byte list \<Rightarrow> bool \<Rightarrow> size_type \<Rightarrow> error + dbtuple" where
  "dbtuple_ctor_empty p do_big_type alloc_sz =
     (case CheckBounds alloc_sz of
        Inl e \<Rightarrow> Inl e
      | Inr a \<Rightarrow>
          Inr \<lparr>hdr = (if do_big_type then HDR_TYPE_MASK else 0) OR HDR_LATEST_MASK,
               version = MIN_TID,
               size_f = 0,
               alloc_size = a,
               big_next = None,
               value_start = drop (sizeof_dbtuple + (if do_big_type then sizeof_ptr else 0)) p\<rparr>)"

definition dbtuple_ctor_value ::
  "byte list \<Rightarrow> tid_t \<Rightarrow> byte list \<Rightarrow> size_type \<Rightarrow> size_type \<Rightarrow> ptr \<Rightarrow> bool \<Rightarrow> error + dbtuple" where
  "dbtuple_ctor_value p ver r sz alloc_sz nxt set_latest_flag =
     (case CheckBounds sz of
        Inl e \<Rightarrow> Inl e
      | Inr s \<Rightarrow>
         (case CheckBounds alloc_sz of
            Inl e \<Rightarrow> Inl e
          | Inr a \<Rightarrow>
              if \<not> sz \<le> alloc_sz then Inl InvariantViolation
              else
                (case NDB_MEMCPY (drop (sizeof_dbtuple + sizeof_ptr) p) r sz of
                   Inl e \<Rightarrow> Inl e
                 | Inr buf \<Rightarrow>
                     Inr \<lparr>hdr = HDR_TYPE_MASK OR (if set_latest_flag then HDR_LATEST_MASK else 0),
                          version = ver,
                          size_f = s,
                          alloc_size = a,
                          big_next = nxt,
                          value_start = buf\<rparr>)))"

text \<open>
  \<^verbatim>\<open>alloc_first\<close> and \<^verbatim>\<open>alloc\<close> take the store and return it with the new node
  appended; the address of the new node is the old length of the store, so it differs
  from every address in use. The subtractions cannot go below zero: the block is never
  smaller than the prefix.
\<close>

definition alloc_first :: "store \<Rightarrow> bool \<Rightarrow> size_type \<Rightarrow> error + store \<times> nat" where
  "alloc_first H do_big_type alloc_sz =
     (if \<not> alloc_sz \<le> node_size_max then Inl InvariantViolation
      else
        let big_type_contrib_sz = (if do_big_type then sizeof_ptr else 0);
            max_actual_alloc_sz = node_size_max + sizeof_dbtuple + big_type_contrib_sz;
            actual_alloc_sz =
              min (round_up 4 (sizeof_dbtuple + big_type_contrib_sz + alloc_sz)) max_actual_alloc_sz;
            p = malloc actual_alloc_sz
        in if \<not> actual_alloc_sz - sizeof_dbtuple - big_type_contrib_sz \<ge> alloc_sz
           then Inl InvariantViolation
           else
             (case dbtuple_ctor_empty p do_big_type
                     (actual_alloc_sz - sizeof_dbtuple - big_type_contrib_sz) of
                Inl e \<Rightarrow> Inl e
              | Inr n \<Rightarrow> Inr (H @ [n], length H)))"

definition alloc ::
  "store \<Rightarrow> tid_t \<Rightarrow> byte list \<Rightarrow> size_type \<Rightarrow> ptr \<Rightarrow> bool \<Rightarrow> error + store \<times> nat" where
  "alloc H ver val sz nxt set_latest_flag =
     (if \<not> sz \<le> node_size_max then Inl InvariantViolation
      else
        let max_alloc_sz = node_size_max + sizeof_dbtuple + sizeof_ptr;
            alloc_sz = min (round_up 4 (sizeof_dbtuple + sizeof_ptr + sz)) max_alloc_sz;
            p = malloc alloc_sz
        in (case dbtuple_ctor_value p ver val sz (alloc_sz - sizeof_dbtuple - sizeof_ptr)
                   nxt set_latest_flag of
              Inl e \<Rightarrow> Inl e
            | Inr n \<Rightarrow> Inr (H @ [n], length H)))"

subsection \<open>Reading: record_at and stable_read\<close>

text \<open>
  \<^verbatim>\<open>record_at\<close> of the node at address \<open>this\<close>. The output parameters \<^verbatim>\<open>start_t\<close>
  and \<^verbatim>\<open>r\<close> are passed in with the caller's values and returned with the result, so a
  \<^verbatim>\<open>return false\<close> hands them back as they were. \<^verbatim>\<open>goto retry\<close> and the call on the
  next node are recursive calls; a chain that runs in a circle, or a locked node, gives
  \<open>None\<close>. An address outside the store is \<open>MemoryFault\<close>.
\<close>

partial_function (option) record_at ::
  "store \<Rightarrow> nat \<Rightarrow> tid_t \<Rightarrow> tid_t \<Rightarrow> byte list \<Rightarrow> size_type \<Rightarrow> bool
     \<Rightarrow> (error + bool \<times> tid_t \<times> byte list) option" where
  "record_at H this t start_t r max_len require_latest =
     (if \<not> this < length H then Some (Inl MemoryFault)
      else
        let n = H ! this in
        case stable_version n of
          None \<Rightarrow> None
        | Some v \<Rightarrow>
           (case get_next_v n v of
              Inl e \<Rightarrow> Some (Inl e)
            | Inr p \<Rightarrow>
                let found = is_not_behind n t in
                if found \<and> require_latest \<and> \<not> IsLatest v then Some (Inr (False, start_t, r))
                else
                  (case (if found
                         then (case get_value_start n v of
                                 Inl e \<Rightarrow> Inl e
                               | Inr src \<Rightarrow>
                                  (case string_assign src (min (unat (size_f n)) max_len) of
                                     Inl e \<Rightarrow> Inl e
                                   | Inr r' \<Rightarrow> Inr (version n, r')))
                         else Inr (start_t, r)) of
                     Inl e \<Rightarrow> Some (Inl e)
                   | Inr (start_t', r') \<Rightarrow>
                       if \<not> check_version n v
                       then record_at H this t start_t' r' max_len require_latest
                       else if found then Some (Inr (True, start_t', r'))
                       else
                         (case p of
                            Some q \<Rightarrow> record_at H q t start_t' r' max_len False
                          | None \<Rightarrow> Some (Inr (True, MIN_TID, []))))))"

definition stable_read ::
  "store \<Rightarrow> nat \<Rightarrow> tid_t \<Rightarrow> tid_t \<Rightarrow> byte list \<Rightarrow> size_type
     \<Rightarrow> (error + bool \<times> tid_t \<times> byte list) option" where
  "stable_read H this t start_t r max_len =
     (if \<not> max_len > 0 then Some (Inl InvariantViolation)
      else record_at H this t start_t r max_len True)"

subsection \<open>Writing: write_record_at\<close>

text \<open>
  \<^verbatim>\<open>write_record_at\<close> of the node at address \<open>this\<close>. The transaction is its predicate
  \<^verbatim>\<open>can_overwrite_record_tid\<close>. The result is the new store with the pair that the
  source returns.
\<close>

definition write_record_at ::
  "store \<Rightarrow> nat \<Rightarrow> (tid_t \<Rightarrow> tid_t \<Rightarrow> bool) \<Rightarrow> tid_t \<Rightarrow> byte list \<Rightarrow> size_type
     \<Rightarrow> error + store \<times> bool \<times> ptr" where
  "write_record_at H this can_overwrite_record_tid t r sz =
     (if \<not> this < length H then Inl MemoryFault
      else
        let n = H ! this in
        if \<not> is_locked n then Inl InvariantViolation
        else if \<not> is_latest n then Inl InvariantViolation
        else
          let v = unstable_version n in
          if can_overwrite_record_tid (version n) t then
            if sz \<le> unat (alloc_size n) then
              (case get_value_start n v of
                 Inl e \<Rightarrow> Inl e
               | Inr dst \<Rightarrow>
                  (case NDB_MEMCPY dst r sz of
                     Inl e \<Rightarrow> Inl e
                   | Inr buf \<Rightarrow>
                       Inr (H[this := n\<lparr>version := t, size_f := of_nat sz, value_start := buf\<rparr>],
                            False, None)))
            else
              (case alloc H t r sz (Some this) True of
                 Inl e \<Rightarrow> Inl e
               | Inr (H1, rep) \<Rightarrow>
                   if \<not> is_latest (H1 ! rep) then Inl InvariantViolation
                   else
                     (case set_latest (H1 ! this) False of
                        Inl e \<Rightarrow> Inl e
                      | Inr n' \<Rightarrow> Inr (H1[this := n'], False, Some rep)))
          else
            (case get_value_start n v of
               Inl e \<Rightarrow> Inl e
             | Inr vstart \<Rightarrow>
                 if IsBigType v \<and> sz \<le> unat (alloc_size n) then
                   (case alloc H (version n) vstart (unat (size_f n)) (big_next n) False of
                      Inl e \<Rightarrow> Inl e
                    | Inr (H1, spill) \<Rightarrow>
                        if is_latest (H1 ! spill) then Inl InvariantViolation
                        else
                          (case set_next (H1 ! this) (Some spill) of
                             Inl e \<Rightarrow> Inl e
                           | Inr n1 \<Rightarrow>
                              (case NDB_MEMCPY vstart r sz of
                                 Inl e \<Rightarrow> Inl e
                               | Inr buf \<Rightarrow>
                                   Inr (H1[this := n1\<lparr>version := t, size_f := of_nat sz,
                                                       value_start := buf\<rparr>],
                                        True, None))))
                 else
                   (case alloc H t r sz (Some this) True of
                      Inl e \<Rightarrow> Inl e
                    | Inr (H1, rep) \<Rightarrow>
                        if \<not> is_latest (H1 ! rep) then Inl InvariantViolation
                        else
                          (case set_latest (H1 ! this) False of
                             Inl e \<Rightarrow> Inl e
                           | Inr n' \<Rightarrow> Inr (H1[this := n'], True, Some rep)))))"

subsection \<open>Scenarios and specification functions\<close>

text \<open>
  The header that the spec describes for \<^verbatim>\<open>unlock\<close>, written from its words: the
  counter field (bits 5 to 31) incremented by one, the sum cut to the 27 bits of the
  field, the locked bit cleared, bits 1 to 4 kept.
\<close>

definition unlock_spec_hdr :: "version_t \<Rightarrow> version_t" where
  "unlock_spec_hdr v = push_bit 5 (drop_bit 5 v + 1) OR (take_bit 5 v AND NOT 1)"

text \<open>
  Invariant 7 of the spec (payload bounds) together with the layout: the inline buffer
  holds \<^verbatim>\<open>alloc_size\<close> bytes, of which the first \<^verbatim>\<open>size\<close> are live.
\<close>

definition payload_bounds :: "dbtuple \<Rightarrow> bool" where
  "payload_bounds n = (length (value_start n) = unat (alloc_size n) \<and> size_f n \<le> alloc_size n)"

text \<open>
  A chain in the store: \<open>linked H as\<close> says that the addresses \<open>as\<close> are nodes of
  the store, each one the \<^verbatim>\<open>get_next()\<close> of the one before; \<open>is_chain H as\<close> says
  moreover that the last one is the tail, whose next pointer is null.
\<close>

fun linked :: "store \<Rightarrow> nat list \<Rightarrow> bool" where
  "linked H [] = True"
| "linked H [a] = (a < length H)"
| "linked H (a # b # as) = (a < length H \<and> get_next (H ! a) = Some b \<and> linked H (b # as))"

definition is_chain :: "store \<Rightarrow> nat list \<Rightarrow> bool" where
  "is_chain H as = (as \<noteq> [] \<and> linked H as \<and> get_next (H ! last as) = None)"

text \<open>A sequence of \<open>k\<close> pairs of \<^verbatim>\<open>lock\<close> and \<^verbatim>\<open>unlock\<close> on one node.\<close>

fun lock_unlock_pairs :: "nat \<Rightarrow> dbtuple \<Rightarrow> (error + dbtuple) option" where
  "lock_unlock_pairs 0 n = Some (Inr n)"
| "lock_unlock_pairs (Suc k) n =
     (case lock n of
        None \<Rightarrow> None
      | Some (Inl e) \<Rightarrow> Some (Inl e)
      | Some (Inr (n1, v)) \<Rightarrow>
         (case unlock n1 of
            Inl e \<Rightarrow> Some (Inl e)
          | Inr n2 \<Rightarrow> lock_unlock_pairs k n2))"

section \<open>Properties\<close>

subsection \<open>The header word\<close>

lemmas hdr_masks =
  HDR_LOCKED_MASK_def HDR_TYPE_MASK_def HDR_DELETING_MASK_def HDR_ENQUEUED_MASK_def
  HDR_LATEST_MASK_def HDR_VERSION_MASK_def HDR_TYPE_SHIFT_def HDR_DELETING_SHIFT_def
  HDR_ENQUEUED_SHIFT_def HDR_LATEST_SHIFT_def HDR_VERSION_SHIFT_def

lemmas hdr_tests = IsLocked_def IsBigType_def IsDeleting_def IsEnqueued_def IsLatest_def

lemma drop_and_mask: "drop_bit 5 ((v::32 word) AND push_bit 5 (- 1)) = drop_bit 5 v"
  by (rule bit_eqI) (auto simp add: bit_simps dest: bit_imp_le_length)

lemma and_not_mask: "(v::32 word) AND NOT (push_bit 5 (- 1)) = take_bit 5 v"
  by (rule bit_eqI) (auto simp add: bit_simps)

lemma push_and_mask: "push_bit 5 (x::32 word) AND push_bit 5 (- 1) = push_bit 5 x"
  by (rule bit_eqI) (auto simp add: bit_simps)

lemma unlock_hdr_bits:
  "((((v::32 word) AND NOT (push_bit 5 (- 1))) OR
       (push_bit 5 (drop_bit 5 (v AND push_bit 5 (- 1)) + 1) AND push_bit 5 (- 1))) AND NOT 1)
    = unlock_spec_hdr v"
  unfolding unlock_spec_hdr_def
  apply (simp only: drop_and_mask and_not_mask push_and_mask)
  apply (rule bit_eqI)
  apply (auto simp add: bit_simps)
  done

lemma drop_unlocked: "drop_bit 5 (unlock_spec_hdr v) = take_bit 27 (drop_bit 5 v + 1)"
  unfolding unlock_spec_hdr_def
  by (rule bit_eqI) (auto simp add: bit_simps)

lemma unat_counter:
  "unat (take_bit 27 (drop_bit 5 (v::32 word) + 1)) = (unat (drop_bit 5 v) + 1) mod 2 ^ 27"
proof -
  have d: "(134217728::nat) dvd 4294967296" by simp
  show ?thesis
    by (simp add: unat_word_ariths unsigned_take_bit_eq take_bit_eq_mod mod_mod_cancel [OF d])
qed

lemma flag_unlocked:
  "0 < k \<Longrightarrow> k < 5 \<Longrightarrow> unlock_spec_hdr v AND push_bit k 1 = v AND push_bit k 1"
  unfolding unlock_spec_hdr_def
  by (rule bit_eqI) (auto simp add: bit_simps)

lemmas flag_unlocked_num =
  flag_unlocked [of 1, simplified] flag_unlocked [of 2, simplified]
  flag_unlocked [of 3, simplified] flag_unlocked [of 4, simplified]

lemma lockbit_unlocked: "unlock_spec_hdr v AND 1 = 0"
  unfolding unlock_spec_hdr_def
  by (rule bit_eqI) (auto simp add: bit_simps)

lemma Version_eq: "Version v = drop_bit 5 v"
  unfolding Version_def HDR_VERSION_MASK_def HDR_VERSION_SHIFT_def by (rule drop_and_mask)

lemma Version_bound: "unat (Version v) < 2 ^ 27"
proof -
  have "unat v < 2 ^ 32" using unsigned_less [of v] by simp
  then have "unat v div 2 ^ 5 < 2 ^ 27" by (simp add: less_mult_imp_div_less)
  then show ?thesis by (simp add: Version_eq drop_bit_eq_div unat_div)
qed

lemma unlock_eq: "IsLocked (hdr n) \<Longrightarrow> unlock n = Inr (n\<lparr>hdr := unlock_spec_hdr (hdr n)\<rparr>)"
  unfolding unlock_def Let_def Version_def hdr_masks IsLocked_def
  by (simp only: unlock_hdr_bits lockbit_unlocked) simp

lemma flags_unlocked:
  "\<not> IsLocked (unlock_spec_hdr v)" "IsBigType (unlock_spec_hdr v) = IsBigType v"
  "IsDeleting (unlock_spec_hdr v) = IsDeleting v" "IsEnqueued (unlock_spec_hdr v) = IsEnqueued v"
  "IsLatest (unlock_spec_hdr v) = IsLatest v"
  by (simp_all add: hdr_tests hdr_masks flag_unlocked_num lockbit_unlocked)

lemma Version_unlocked:
  "unat (Version (unlock_spec_hdr v)) = (unat (Version v) + 1) mod 2 ^ 27"
  by (simp add: Version_eq drop_unlocked unat_counter)

lemma flag_locked: "0 < k \<Longrightarrow> ((v::32 word) OR 1) AND push_bit k 1 = v AND push_bit k 1"
  by (rule bit_eqI) (auto simp add: bit_simps)

lemmas flag_locked_num =
  flag_locked [of 1, simplified] flag_locked [of 2, simplified]
  flag_locked [of 3, simplified] flag_locked [of 4, simplified]

lemma drop_locked: "drop_bit 5 ((v::32 word) OR 1) = drop_bit 5 v"
  by (rule bit_eqI) (auto simp add: bit_simps)

lemma lockbit_locked: "((v::32 word) OR 1) AND 1 = 1"
  by (rule bit_eqI) (auto simp add: bit_simps)

lemma lock_eq:
  "\<not> IsLocked (hdr n) \<Longrightarrow>
     lock n = Some (Inr (n\<lparr>hdr := hdr n OR HDR_LOCKED_MASK\<rparr>, hdr n OR HDR_LOCKED_MASK))"
  unfolding lock_def
  apply (subst lock_spin.simps)
  apply (simp add: compare_and_swap_hdr_def IsLocked_def HDR_LOCKED_MASK_def lockbit_locked)
  done

lemma flags_locked:
  "IsLocked (v OR HDR_LOCKED_MASK)" "IsBigType (v OR HDR_LOCKED_MASK) = IsBigType v"
  "IsDeleting (v OR HDR_LOCKED_MASK) = IsDeleting v"
  "IsEnqueued (v OR HDR_LOCKED_MASK) = IsEnqueued v"
  "IsLatest (v OR HDR_LOCKED_MASK) = IsLatest v" "Version (v OR HDR_LOCKED_MASK) = Version v"
  by (simp_all add: hdr_tests hdr_masks flag_locked_num lockbit_locked Version_eq drop_locked)

lemma lock_unlock_pairs_counter:
  "\<not> IsLocked (hdr m) \<Longrightarrow>
     \<exists>m'. lock_unlock_pairs k m = Some (Inr m') \<and> m' = m\<lparr>hdr := hdr m'\<rparr> \<and>
       unat (Version (hdr m')) = (unat (Version (hdr m)) + k) mod 2 ^ 27 \<and>
       \<not> IsLocked (hdr m') \<and> IsBigType (hdr m') = IsBigType (hdr m) \<and>
       IsDeleting (hdr m') = IsDeleting (hdr m) \<and> IsEnqueued (hdr m') = IsEnqueued (hdr m) \<and>
       IsLatest (hdr m') = IsLatest (hdr m)"
proof (induction k arbitrary: m)
  case 0
  show ?case using 0 Version_bound [of "hdr m"] by simp
next
  case (Suc k)
  let ?m1 = "m\<lparr>hdr := hdr m OR HDR_LOCKED_MASK\<rparr>"
  let ?m2 = "?m1\<lparr>hdr := unlock_spec_hdr (hdr ?m1)\<rparr>"
  have l: "lock m = Some (Inr (?m1, hdr ?m1))" using Suc.prems by (simp add: lock_eq)
  have u: "unlock ?m1 = Inr ?m2" by (rule unlock_eq) (simp add: flags_locked)
  have nl: "\<not> IsLocked (hdr ?m2)" by (simp add: flags_unlocked)
  from Suc.IH [OF nl] obtain m' where
    r: "lock_unlock_pairs k ?m2 = Some (Inr m')" and
    s: "m' = ?m2\<lparr>hdr := hdr m'\<rparr>" and
    c: "unat (Version (hdr m')) = (unat (Version (hdr ?m2)) + k) mod 2 ^ 27" and
    f: "\<not> IsLocked (hdr m')" "IsBigType (hdr m') = IsBigType (hdr ?m2)"
       "IsDeleting (hdr m') = IsDeleting (hdr ?m2)" "IsEnqueued (hdr m') = IsEnqueued (hdr ?m2)"
       "IsLatest (hdr m') = IsLatest (hdr ?m2)"
    by blast
  have v2: "unat (Version (hdr ?m2)) = (unat (Version (hdr m)) + 1) mod 2 ^ 27"
    by (simp add: Version_unlocked flags_locked)
  have c': "unat (Version (hdr m')) = (unat (Version (hdr m)) + Suc k) mod 2 ^ 27"
    unfolding c v2 by (simp add: mod_add_left_eq)
  have "lock_unlock_pairs (Suc k) m = Some (Inr m')" using l u r by simp
  moreover have "m' = m\<lparr>hdr := hdr m'\<rparr>"
    using s by (metis dbtuple.surjective dbtuple.update_convs(1))
  ultimately show ?case using c' f by (simp add: flags_unlocked flags_locked)
qed

text \<open>
  C7. \<^verbatim>\<open>unlock\<close>, called while the lock bit is set, stores the old header with the
  27-bit counter field incremented by one modulo \<open>2 ^ 27\<close>, the locked bit cleared and
  the type, deleted, enqueued and latest bits unchanged, and changes no other field. Hence
  after \<open>k\<close> pairs of lock and unlock on a node that starts unlocked, the counter is the
  old counter plus \<open>k\<close> modulo \<open>2 ^ 27\<close>: one more per unlock.
\<close>

theorem unlock_increments_counter:
  "(IsLocked (hdr n) \<longrightarrow>
      unlock n = Inr (n\<lparr>hdr := unlock_spec_hdr (hdr n)\<rparr>) \<and>
      unat (Version (unlock_spec_hdr (hdr n))) = (unat (Version (hdr n)) + 1) mod 2 ^ 27 \<and>
      \<not> IsLocked (unlock_spec_hdr (hdr n)) \<and>
      IsBigType (unlock_spec_hdr (hdr n)) = IsBigType (hdr n) \<and>
      IsDeleting (unlock_spec_hdr (hdr n)) = IsDeleting (hdr n) \<and>
      IsEnqueued (unlock_spec_hdr (hdr n)) = IsEnqueued (hdr n) \<and>
      IsLatest (unlock_spec_hdr (hdr n)) = IsLatest (hdr n)) \<and>
   (\<not> IsLocked (hdr m) \<longrightarrow>
      (\<exists>m'. lock_unlock_pairs k m = Some (Inr m') \<and> m' = m\<lparr>hdr := hdr m'\<rparr> \<and>
         unat (Version (hdr m')) = (unat (Version (hdr m)) + k) mod 2 ^ 27 \<and>
         \<not> IsLocked (hdr m') \<and> IsBigType (hdr m') = IsBigType (hdr m) \<and>
         IsDeleting (hdr m') = IsDeleting (hdr m) \<and> IsEnqueued (hdr m') = IsEnqueued (hdr m) \<and>
         IsLatest (hdr m') = IsLatest (hdr m)))"
  using lock_unlock_pairs_counter [of m k]
  by (simp add: unlock_eq flags_unlocked Version_unlocked)

text \<open>
  The witness: a locked latest node whose counter is \<open>2 ^ 27 - 1\<close> unlocks to counter 0,
  and three pairs on an unlocked node with counter 0 end at counter 3.
\<close>

theorem unlock_increments_counter_witness:
  "IsLocked (0xFFFFFFF1 :: version_t) \<and>
   unlock \<lparr>hdr = 0xFFFFFFF1, version = 7, size_f = 0, alloc_size = 0, big_next = None,
           value_start = []\<rparr>
     = Inr \<lparr>hdr = 0x10, version = 7, size_f = 0, alloc_size = 0, big_next = None,
            value_start = []\<rparr> \<and>
   unat (Version (0xFFFFFFF1 :: version_t)) = 2 ^ 27 - 1 \<and>
   unat (Version (0x10 :: version_t)) = 0 \<and>
   \<not> IsLocked (0x10 :: version_t) \<and>
   (\<exists>m'. lock_unlock_pairs 3
            \<lparr>hdr = 0x10, version = 7, size_f = 0, alloc_size = 0, big_next = None,
             value_start = []\<rparr> = Some (Inr m') \<and>
         unat (Version (hdr m')) = 3 \<and> IsLatest (hdr m') \<and> \<not> IsLocked (hdr m'))"
proof -
  have e: "unlock_spec_hdr 0xFFFFFFF1 = 0x10"
    unfolding unlock_spec_hdr_def by (simp add: word_eq_iff_unsigned [where ?'a = nat])
  have l: "IsLocked (0xFFFFFFF1 :: version_t)" "\<not> IsLocked (0x10 :: version_t)"
    "IsLatest (0x10 :: version_t)"
    by (simp_all add: hdr_tests hdr_masks)
  have v: "unat (Version (0xFFFFFFF1 :: version_t)) = 2 ^ 27 - 1"
    "unat (Version (0x10 :: version_t)) = 0"
    by (simp_all add: Version_eq)
  show ?thesis
  using l v e unlock_increments_counter
    [of "\<lparr>hdr = 0xFFFFFFF1, version = 7, size_f = 0, alloc_size = 0, big_next = None,
          value_start = []\<rparr>"
        "\<lparr>hdr = 0x10, version = 7, size_f = 0, alloc_size = 0, big_next = None,
          value_start = []\<rparr>" 3]
  by auto
qed

subsection \<open>Allocation\<close>

lemma round_up_ge: "t \<le> round_up 4 t"
  unfolding round_up_def by simp

lemma round_up_dvd: "16 dvd round_up 4 t"
  unfolding round_up_def by simp

lemma round_up_less: "round_up 4 t < t + 16"
  unfolding round_up_def by simp

lemma CheckBounds_ok: "s \<le> 65535 \<Longrightarrow> CheckBounds s = Inr (of_nat s)"
  by (simp add: CheckBounds_def node_size_max_def)

lemma unat_of_nat16: "s \<le> 65535 \<Longrightarrow> unat (of_nat s :: 16 word) = s"
  by (simp add: unat_of_nat)

lemma le_of_nat16: "a \<le> b \<Longrightarrow> b \<le> 65535 \<Longrightarrow> (of_nat a :: 16 word) \<le> of_nat b"
  by (simp add: word_le_nat_alt unat_of_nat16)

text \<open>The capacity that a block for sz bytes after a prefix of p bytes gets.\<close>

lemma cap_bounds:
  assumes "sz \<le> 65535"
  shows "sz \<le> min (round_up 4 (p + sz)) (65535 + p) - p"
    and "min (round_up 4 (p + sz)) (65535 + p) - p \<le> 65535"
    and "p \<le> min (round_up 4 (p + sz)) (65535 + p)"
  using assms round_up_ge [of "p + sz"] by auto

lemma alloc_first_eq:
  assumes "cap \<le> 65535"
  shows "alloc_first H big cap =
    Inr (H @ [\<lparr>hdr = (if big then HDR_TYPE_MASK else 0) OR HDR_LATEST_MASK,
               version = MIN_TID, size_f = 0,
               alloc_size = of_nat (min (round_up 4 (16 + (if big then 8 else 0) + cap))
                                        (65535 + 16 + (if big then 8 else 0))
                                    - 16 - (if big then 8 else 0)),
               big_next = None,
               value_start = replicate (min (round_up 4 (16 + (if big then 8 else 0) + cap))
                                        (65535 + 16 + (if big then 8 else 0))
                                    - 16 - (if big then 8 else 0)) 0\<rparr>], length H)"
proof (cases big)
  case True
  show ?thesis
    using assms True cap_bounds [of cap 24]
    by (simp add: alloc_first_def Let_def node_size_max_def sizeof_dbtuple_def sizeof_ptr_def
        dbtuple_ctor_empty_def CheckBounds_def malloc_def)
next
  case False
  show ?thesis
    using assms False cap_bounds [of cap 16]
    by (simp add: alloc_first_def Let_def node_size_max_def sizeof_dbtuple_def sizeof_ptr_def
        dbtuple_ctor_empty_def CheckBounds_def malloc_def)
qed

lemma alloc_eq:
  assumes "sz \<le> 65535" "sz \<le> length val"
  shows "alloc H ver val sz nxt fl =
    Inr (H @ [\<lparr>hdr = HDR_TYPE_MASK OR (if fl then HDR_LATEST_MASK else 0),
               version = ver, size_f = of_nat sz,
               alloc_size = of_nat (min (round_up 4 (24 + sz)) 65559 - 24),
               big_next = nxt,
               value_start = take sz val @ replicate (min (round_up 4 (24 + sz)) 65559 - 24 - sz) 0\<rparr>],
         length H)"
  using assms cap_bounds [of sz 24]
  by (simp add: alloc_def Let_def node_size_max_def sizeof_dbtuple_def sizeof_ptr_def
        dbtuple_ctor_value_def CheckBounds_def malloc_def NDB_MEMCPY_def)

lemma alloc_too_big: "65535 < sz \<Longrightarrow> alloc H ver val sz nxt fl = Inl InvariantViolation"
  by (simp add: alloc_def node_size_max_def)

lemma alloc_first_too_big: "65535 < cap \<Longrightarrow> alloc_first H big cap = Inl InvariantViolation"
  by (simp add: alloc_first_def node_size_max_def)

lemma alloc_first_ex:
  assumes "cap \<le> 65535"
  shows "\<exists>a. cap \<le> a \<and> a \<le> 65535 \<and>
    16 + (if big then 8 else 0) + a =
      min (round_up 4 (16 + (if big then 8 else 0) + cap)) (65535 + 16 + (if big then 8 else 0)) \<and>
    alloc_first H big cap =
      Inr (H @ [\<lparr>hdr = (if big then HDR_TYPE_MASK else 0) OR HDR_LATEST_MASK,
                 version = MIN_TID, size_f = 0, alloc_size = of_nat a, big_next = None,
                 value_start = replicate a 0\<rparr>], length H)"
proof -
  let ?c = "(if big then 8 else 0) :: nat"
  define a where "a = min (round_up 4 (16 + ?c + cap)) (65535 + 16 + ?c) - 16 - ?c"
  have b: "cap \<le> a" "a \<le> 65535" "16 + ?c \<le> min (round_up 4 (16 + ?c + cap)) (65535 + 16 + ?c)"
    unfolding a_def using cap_bounds [OF assms, of "16 + ?c"] by (simp_all add: add.assoc)
  have e: "16 + ?c + a = min (round_up 4 (16 + ?c + cap)) (65535 + 16 + ?c)"
    unfolding a_def using b(3) by simp
  have "alloc_first H big cap =
      Inr (H @ [\<lparr>hdr = (if big then HDR_TYPE_MASK else 0) OR HDR_LATEST_MASK,
                 version = MIN_TID, size_f = 0, alloc_size = of_nat a, big_next = None,
                 value_start = replicate a 0\<rparr>], length H)"
    unfolding a_def by (rule alloc_first_eq [OF assms])
  with b e show ?thesis by (intro exI [of _ a]) simp
qed

lemma alloc_ex:
  assumes "sz \<le> 65535" "sz \<le> length val"
  shows "\<exists>a. sz \<le> a \<and> a \<le> 65535 \<and> 24 + a = min (round_up 4 (24 + sz)) 65559 \<and>
    alloc H ver val sz nxt fl =
      Inr (H @ [\<lparr>hdr = HDR_TYPE_MASK OR (if fl then HDR_LATEST_MASK else 0),
                 version = ver, size_f = of_nat sz, alloc_size = of_nat a, big_next = nxt,
                 value_start = take sz val @ replicate (a - sz) 0\<rparr>], length H)"
proof -
  define a where "a = min (round_up 4 (24 + sz)) 65559 - 24"
  have b: "sz \<le> a" "a \<le> 65535" "24 \<le> min (round_up 4 (24 + sz)) 65559"
    unfolding a_def using cap_bounds [OF assms(1), of 24] by simp_all
  have e: "24 + a = min (round_up 4 (24 + sz)) 65559"
    unfolding a_def using b(3) by simp
  have "alloc H ver val sz nxt fl =
      Inr (H @ [\<lparr>hdr = HDR_TYPE_MASK OR (if fl then HDR_LATEST_MASK else 0),
                 version = ver, size_f = of_nat sz, alloc_size = of_nat a, big_next = nxt,
                 value_start = take sz val @ replicate (a - sz) 0\<rparr>], length H)"
    unfolding a_def by (rule alloc_eq [OF assms])
  with b e show ?thesis by (intro exI [of _ a]) simp
qed

text \<open>
  C8. For a requested capacity (\<^verbatim>\<open>alloc_first\<close>) or a payload size (\<^verbatim>\<open>alloc\<close>) of at
  most 65535, the block allocated (the fixed prefix, the pointer slot of a big node and
  the inline buffer) has the size that is the minimum of prefix + pointer slot + request
  rounded up to a multiple of 16 and of the ceiling 65535 + prefix + pointer slot; the
  field \<^verbatim>\<open>alloc_size\<close> is the whole of the block after the prefix, so that
  request \<open>\<le>\<close> \<^verbatim>\<open>alloc_size\<close> \<open>\<le>\<close> 65535 and \<^verbatim>\<open>size\<close> \<open>\<le>\<close> \<^verbatim>\<open>alloc_size\<close>, also
  when the ceiling clamps the rounding. The last line is what rounding up means for the
  modelled \<open>round_up\<close>. The payload passed to \<^verbatim>\<open>alloc\<close> holds at least \<open>sz\<close> bytes.
\<close>

theorem alloc_block_size:
  "(cap \<le> node_size_max \<longrightarrow>
      (\<exists>n. alloc_first H big cap = Inr (H @ [n], length H) \<and>
         base_size n = sizeof_dbtuple + (if big then sizeof_ptr else 0) \<and>
         base_size n + length (value_start n) =
           min (round_up 4 (sizeof_dbtuple + (if big then sizeof_ptr else 0) + cap))
               (node_size_max + sizeof_dbtuple + (if big then sizeof_ptr else 0)) \<and>
         unat (alloc_size n) = length (value_start n) \<and>
         cap \<le> unat (alloc_size n) \<and> unat (alloc_size n) \<le> node_size_max \<and>
         size_f n \<le> alloc_size n)) \<and>
   (sz \<le> node_size_max \<and> sz \<le> length val \<longrightarrow>
      (\<exists>n. alloc H ver val sz nxt fl = Inr (H @ [n], length H) \<and>
         base_size n = sizeof_dbtuple + sizeof_ptr \<and>
         base_size n + length (value_start n) =
           min (round_up 4 (sizeof_dbtuple + sizeof_ptr + sz))
               (node_size_max + sizeof_dbtuple + sizeof_ptr) \<and>
         unat (alloc_size n) = length (value_start n) \<and>
         unat (size_f n) = sz \<and>
         sz \<le> unat (alloc_size n) \<and> unat (alloc_size n) \<le> node_size_max \<and>
         size_f n \<le> alloc_size n)) \<and>
   16 dvd round_up 4 x \<and> x \<le> round_up 4 x \<and> round_up 4 x < x + 16"
proof (intro conjI impI)
  assume c: "cap \<le> node_size_max"
  then have c': "cap \<le> 65535" by (simp add: node_size_max_def)
  have big: "IsBigType ((if big then HDR_TYPE_MASK else 0) OR HDR_LATEST_MASK) = big"
    by (simp add: hdr_tests hdr_masks)
  from alloc_first_ex [OF c', of big H] obtain a where
    a: "cap \<le> a" "a \<le> 65535"
      "16 + (if big then 8 else 0) + a =
         min (round_up 4 (16 + (if big then 8 else 0) + cap)) (65535 + 16 + (if big then 8 else 0))"
    and e: "alloc_first H big cap =
      Inr (H @ [\<lparr>hdr = (if big then HDR_TYPE_MASK else 0) OR HDR_LATEST_MASK,
                 version = MIN_TID, size_f = 0, alloc_size = of_nat a, big_next = None,
                 value_start = replicate a 0\<rparr>], length H)"
    by blast
  show "\<exists>n. alloc_first H big cap = Inr (H @ [n], length H) \<and>
         base_size n = sizeof_dbtuple + (if big then sizeof_ptr else 0) \<and>
         base_size n + length (value_start n) =
           min (round_up 4 (sizeof_dbtuple + (if big then sizeof_ptr else 0) + cap))
               (node_size_max + sizeof_dbtuple + (if big then sizeof_ptr else 0)) \<and>
         unat (alloc_size n) = length (value_start n) \<and>
         cap \<le> unat (alloc_size n) \<and> unat (alloc_size n) \<le> node_size_max \<and>
         size_f n \<le> alloc_size n"
    apply (subst e)
    apply (rule exI, rule conjI, rule refl)
    using a big
    apply (cases big)
    apply (simp_all add: base_size_def is_big_type_def sizeof_dbtuple_def sizeof_ptr_def
        node_size_max_def unat_of_nat16)
    done
next
  assume "sz \<le> node_size_max \<and> sz \<le> length val"
  then have s: "sz \<le> 65535" "sz \<le> length val" by (simp_all add: node_size_max_def)
  have big: "IsBigType (HDR_TYPE_MASK OR (if fl then HDR_LATEST_MASK else 0))"
    by (simp add: hdr_tests hdr_masks)
  from alloc_ex [OF s, of H ver nxt fl] obtain a where
    a: "sz \<le> a" "a \<le> 65535" "24 + a = min (round_up 4 (24 + sz)) 65559"
    and e: "alloc H ver val sz nxt fl =
      Inr (H @ [\<lparr>hdr = HDR_TYPE_MASK OR (if fl then HDR_LATEST_MASK else 0),
                 version = ver, size_f = of_nat sz, alloc_size = of_nat a, big_next = nxt,
                 value_start = take sz val @ replicate (a - sz) 0\<rparr>], length H)"
    by blast
  show "\<exists>n. alloc H ver val sz nxt fl = Inr (H @ [n], length H) \<and>
         base_size n = sizeof_dbtuple + sizeof_ptr \<and>
         base_size n + length (value_start n) =
           min (round_up 4 (sizeof_dbtuple + sizeof_ptr + sz))
               (node_size_max + sizeof_dbtuple + sizeof_ptr) \<and>
         unat (alloc_size n) = length (value_start n) \<and>
         unat (size_f n) = sz \<and>
         sz \<le> unat (alloc_size n) \<and> unat (alloc_size n) \<le> node_size_max \<and>
         size_f n \<le> alloc_size n"
    apply (subst e)
    apply (rule exI, rule conjI, rule refl)
    using a big s
    apply (simp add: base_size_def is_big_type_def sizeof_dbtuple_def sizeof_ptr_def
        node_size_max_def unat_of_nat16 le_of_nat16)
    done
qed (simp_all add: round_up_dvd round_up_ge round_up_less)

text \<open>
  The witness: a big first node of capacity 65535, where the ceiling clamps the block
  to 65559 bytes, and a node for the two bytes "bb", whose block has 32 bytes.
\<close>

theorem alloc_block_size_witness:
  "65535 \<le> node_size_max \<and>
   (\<exists>n. alloc_first [] True 65535 = Inr ([n], 0) \<and>
        base_size n + length (value_start n) = 65559 \<and> unat (alloc_size n) = 65535 \<and>
        size_f n \<le> alloc_size n) \<and>
   2 \<le> node_size_max \<and> 2 \<le> length [98, 98 :: byte] \<and>
   (\<exists>n. alloc [] 7 [98, 98] 2 None True = Inr ([n], 0) \<and>
        base_size n + length (value_start n) = 32 \<and> unat (alloc_size n) = 8 \<and>
        unat (size_f n) = 2)"
proof -
  have r: "round_up 4 65559 = 65568" "round_up 4 26 = 32" by (simp_all add: round_up_def)
  have h: "65535 \<le> node_size_max" "2 \<le> node_size_max" by (simp_all add: node_size_max_def)
  show ?thesis
    using h r alloc_block_size [of 65535 "[]" True 2 "[98, 98]" 7 None True 0]
    by (auto simp add: sizeof_dbtuple_def sizeof_ptr_def node_size_max_def)
qed

subsection \<open>Writing\<close>

lemma get_value_start_same: "get_value_start n (hdr n) = Inr (value_start n)"
  by (simp add: get_value_start_def)

lemma write_inplace:
  assumes "this < length H" "is_locked (H ! this)" "is_latest (H ! this)"
    "co (version (H ! this)) t" "sz \<le> unat (alloc_size (H ! this))"
    "sz \<le> length r" "sz \<le> length (value_start (H ! this))"
  shows "write_record_at H this co t r sz =
    Inr (H[this := (H ! this)\<lparr>version := t, size_f := of_nat sz,
                               value_start := take sz r @ drop sz (value_start (H ! this))\<rparr>],
         False, None)"
  using assms
  by (simp add: write_record_at_def Let_def unstable_version_def get_value_start_same
      NDB_MEMCPY_def)

lemma latest_cleared: "\<not> IsLatest (v AND NOT HDR_LATEST_MASK)"
  unfolding IsLatest_def by (simp add: and.assoc)

lemma is_latest_new_head: "IsLatest (HDR_TYPE_MASK OR HDR_LATEST_MASK)"
  "IsBigType (HDR_TYPE_MASK OR HDR_LATEST_MASK)" "\<not> IsLocked (HDR_TYPE_MASK OR HDR_LATEST_MASK)"
  "\<not> IsLatest HDR_TYPE_MASK" "IsBigType HDR_TYPE_MASK" "\<not> IsLocked HDR_TYPE_MASK"
  by (simp_all add: hdr_tests hdr_masks)

lemma write_replace:
  assumes "this < length H" "is_locked (H ! this)" "is_latest (H ! this)"
    "sz \<le> 65535" "sz \<le> length r"
    "if co (version (H ! this)) t then \<not> sz \<le> unat (alloc_size (H ! this))
     else \<not> (IsBigType (hdr (H ! this)) \<and> sz \<le> unat (alloc_size (H ! this)))"
  shows "\<exists>a. sz \<le> a \<and> a \<le> 65535 \<and>
    write_record_at H this co t r sz =
    Inr ((H @ [\<lparr>hdr = HDR_TYPE_MASK OR HDR_LATEST_MASK, version = t, size_f = of_nat sz,
                 alloc_size = of_nat a, big_next = Some this,
                 value_start = take sz r @ replicate (a - sz) 0\<rparr>])
           [this := (H ! this)\<lparr>hdr := hdr (H ! this) AND NOT HDR_LATEST_MASK\<rparr>],
         \<not> co (version (H ! this)) t, Some (length H))"
proof -
  from alloc_ex [OF assms(4,5), of H t "Some this" True] obtain a where
    a: "sz \<le> a" "a \<le> 65535"
    and e: "alloc H t r sz (Some this) True =
      Inr (H @ [\<lparr>hdr = HDR_TYPE_MASK OR HDR_LATEST_MASK,
                 version = t, size_f = of_nat sz, alloc_size = of_nat a, big_next = Some this,
                 value_start = take sz r @ replicate (a - sz) 0\<rparr>], length H)"
    by auto
  have "write_record_at H this co t r sz =
    Inr ((H @ [\<lparr>hdr = HDR_TYPE_MASK OR HDR_LATEST_MASK, version = t, size_f = of_nat sz,
                 alloc_size = of_nat a, big_next = Some this,
                 value_start = take sz r @ replicate (a - sz) 0\<rparr>])
           [this := (H ! this)\<lparr>hdr := hdr (H ! this) AND NOT HDR_LATEST_MASK\<rparr>],
         \<not> co (version (H ! this)) t, Some (length H))"
    using assms(1,2,3,6)
    by (simp add: write_record_at_def Let_def unstable_version_def get_value_start_same e
      is_latest_def is_latest_new_head set_latest_def nth_append split: if_splits)
  with a show ?thesis by blast
qed

lemma write_spill:
  assumes "this < length H" "is_locked (H ! this)" "is_latest (H ! this)"
    "\<not> co (version (H ! this)) t" "IsBigType (hdr (H ! this))"
    "sz \<le> unat (alloc_size (H ! this))"
    "sz \<le> length r" "sz \<le> length (value_start (H ! this))"
    "unat (size_f (H ! this)) \<le> length (value_start (H ! this))"
  shows "\<exists>a. unat (size_f (H ! this)) \<le> a \<and> a \<le> 65535 \<and>
    write_record_at H this co t r sz =
    Inr ((H @ [\<lparr>hdr = HDR_TYPE_MASK, version = version (H ! this),
                 size_f = size_f (H ! this),
                 alloc_size = of_nat a, big_next = big_next (H ! this),
                 value_start = take (unat (size_f (H ! this))) (value_start (H ! this))
                                @ replicate (a - unat (size_f (H ! this))) 0\<rparr>])
           [this := (H ! this)\<lparr>big_next := Some (length H), version := t, size_f := of_nat sz,
                      value_start := take sz r @ drop sz (value_start (H ! this))\<rparr>],
         True, None)"
proof -
  have s: "unat (size_f (H ! this)) \<le> 65535"
    using unsigned_less [of "size_f (H ! this)", where ?'a = nat] by simp
  from alloc_ex [OF s assms(9), of H "version (H ! this)" "big_next (H ! this)" False]
  obtain a where
    a: "unat (size_f (H ! this)) \<le> a" "a \<le> 65535"
    and e: "alloc H (version (H ! this)) (value_start (H ! this)) (unat (size_f (H ! this)))
              (big_next (H ! this)) False =
      Inr (H @ [\<lparr>hdr = HDR_TYPE_MASK, version = version (H ! this),
                 size_f = size_f (H ! this),
                 alloc_size = of_nat a, big_next = big_next (H ! this),
                 value_start = take (unat (size_f (H ! this))) (value_start (H ! this))
                                @ replicate (a - unat (size_f (H ! this))) 0\<rparr>], length H)"
    by auto
  have "write_record_at H this co t r sz =
    Inr ((H @ [\<lparr>hdr = HDR_TYPE_MASK, version = version (H ! this),
                 size_f = size_f (H ! this),
                 alloc_size = of_nat a, big_next = big_next (H ! this),
                 value_start = take (unat (size_f (H ! this))) (value_start (H ! this))
                                @ replicate (a - unat (size_f (H ! this))) 0\<rparr>])
           [this := (H ! this)\<lparr>big_next := Some (length H), version := t, size_f := of_nat sz,
                      value_start := take sz r @ drop sz (value_start (H ! this))\<rparr>],
         True, None)"
    using assms
    by (simp add: write_record_at_def Let_def unstable_version_def get_value_start_same e
      is_latest_def is_big_type_def is_latest_new_head set_next_def nth_append NDB_MEMCPY_def)
  with a show ?thesis by blast
qed

lemma write_too_big:
  assumes "this < length H" "is_locked (H ! this)" "is_latest (H ! this)"
    "65535 < sz"
  shows "write_record_at H this co t r sz = Inl InvariantViolation"
proof -
  have "unat (alloc_size (H ! this)) \<le> 65535"
    using unsigned_less [of "alloc_size (H ! this)", where ?'a = nat] by simp
  with assms show ?thesis
    by (simp add: write_record_at_def Let_def unstable_version_def get_value_start_same
        alloc_too_big)
qed


text \<open>
  C9. For a locked latest node for which \<^verbatim>\<open>can_overwrite\<close> holds of its version and
  \<open>t\<close>, the logical delete \<^verbatim>\<open>write_record_at(txn, t, r, 0)\<close> takes the in-place branch:
  it returns (spilled = false, replacement = none), the node has size 0 and version
  \<open>t\<close> afterwards and nothing else of it changes, and no node is allocated (the store
  keeps its length), whatever the type and the capacity of the node.
\<close>

theorem logical_delete_in_place:
  assumes "this < length H" "n = H ! this" "is_locked n" "is_latest n" "co (version n) t"
  shows "\<exists>H'. write_record_at H this co t r 0 = Inr (H', False, None) \<and>
           H' = H[this := n\<lparr>version := t, size_f := 0\<rparr>] \<and>
           length H' = length H \<and> size_f (H' ! this) = 0 \<and> version (H' ! this) = t"
  using assms write_inplace [of this H co t 0 r] by simp

text \<open>
  The witness: a small node of capacity 2 that holds "aa" at version 10 is deleted at
  version 30 (the predicate is version \<open>\<le>\<close> t).
\<close>

theorem logical_delete_in_place_witness:
  "(0::nat) < length [\<lparr>hdr = 0x11, version = 10, size_f = 2, alloc_size = 2, big_next = None,
                       value_start = [97, 97]\<rparr>] \<and>
   is_locked \<lparr>hdr = 0x11, version = 10, size_f = 2, alloc_size = 2, big_next = None,
              value_start = [97, 97]\<rparr> \<and>
   is_latest \<lparr>hdr = 0x11, version = 10, size_f = 2, alloc_size = 2, big_next = None,
              value_start = [97, 97]\<rparr> \<and>
   (10 :: tid_t) \<le> 30 \<and>
   write_record_at [\<lparr>hdr = 0x11, version = 10, size_f = 2, alloc_size = 2, big_next = None,
                     value_start = [97, 97]\<rparr>] 0 (\<le>) 30 [] 0
     = Inr ([\<lparr>hdr = 0x11, version = 30, size_f = 0, alloc_size = 2, big_next = None,
                value_start = [97, 97]\<rparr>], False, None)"
proof -
  have f: "is_locked \<lparr>hdr = 0x11, version = 10, size_f = 2, alloc_size = 2, big_next = None,
              value_start = [97, 97]\<rparr>"
    "is_latest \<lparr>hdr = 0x11, version = 10, size_f = 2, alloc_size = 2, big_next = None,
              value_start = [97, 97]\<rparr>"
    by (simp_all add: is_locked_def is_latest_def hdr_tests hdr_masks)
  show ?thesis
    using f logical_delete_in_place
      [of 0 "[\<lparr>hdr = 0x11, version = 10, size_f = 2, alloc_size = 2, big_next = None,
               value_start = [97, 97]\<rparr>]" _ "(\<le>)" 30 "[]"]
    by simp
qed

text \<open>
  C1, amended. For a node that is locked and latest, a payload \<open>r\<close> of at least \<open>sz\<close>
  bytes and \<open>sz \<le> 65535\<close>, \<^verbatim>\<open>write_record_at\<close> follows the four rows of the table:
  (1) \<^verbatim>\<open>can_overwrite\<close> and \<open>sz \<le> alloc_size\<close>: version and size are set, the payload is
  copied into the inline buffer, the result is (false, none);
  (2) \<^verbatim>\<open>can_overwrite\<close> and \<open>sz > alloc_size\<close>: a new big latest node with the payload and
  \<open>next = this\<close> is allocated, the latest flag of this node is cleared, the result is
  (false, the new node);
  (3) not \<^verbatim>\<open>can_overwrite\<close>, big and \<open>sz \<le> alloc_size\<close>: a non-latest node is allocated
  and linked behind this node, which is overwritten; the result is (true, none);
  (4) not \<^verbatim>\<open>can_overwrite\<close> and (small or \<open>sz > alloc_size\<close>): as (2), with result
  (true, the new node).
  The replacement is non-null exactly when this node is no longer latest afterwards.
  The node satisfies the payload bounds (its buffer has \<^verbatim>\<open>alloc_size\<close> bytes,
  \<^verbatim>\<open>size\<close> \<open>\<le>\<close> \<^verbatim>\<open>alloc_size\<close>).
\<close>

theorem write_record_at_decision_table:
  assumes "this < length H" "n = H ! this" "is_locked n" "is_latest n"
    "payload_bounds n" "sz \<le> length r" "sz \<le> node_size_max"
  shows
   "(co (version n) t \<and> sz \<le> unat (alloc_size n) \<longrightarrow>
       write_record_at H this co t r sz =
         Inr (H[this := n\<lparr>version := t, size_f := of_nat sz,
                           value_start := take sz r @ drop sz (value_start n)\<rparr>], False, None)) \<and>
    (co (version n) t \<and> unat (alloc_size n) < sz \<longrightarrow>
       (\<exists>rep. write_record_at H this co t r sz =
                Inr ((H @ [rep])[this := n\<lparr>hdr := hdr n AND NOT HDR_LATEST_MASK\<rparr>],
                     False, Some (length H)) \<and>
              is_big_type rep \<and> is_latest rep \<and> \<not> is_locked rep \<and> version rep = t \<and>
              unat (size_f rep) = sz \<and> take sz (value_start rep) = take sz r \<and>
              big_next rep = Some this \<and> payload_bounds rep)) \<and>
    (\<not> co (version n) t \<and> is_big_type n \<and> sz \<le> unat (alloc_size n) \<longrightarrow>
       (\<exists>spill. write_record_at H this co t r sz =
                Inr ((H @ [spill])[this := n\<lparr>big_next := Some (length H), version := t,
                                             size_f := of_nat sz,
                                             value_start := take sz r @ drop sz (value_start n)\<rparr>],
                     True, None) \<and>
              is_big_type spill \<and> \<not> is_latest spill)) \<and>
    (\<not> co (version n) t \<and> (is_small_type n \<or> unat (alloc_size n) < sz) \<longrightarrow>
       (\<exists>rep. write_record_at H this co t r sz =
                Inr ((H @ [rep])[this := n\<lparr>hdr := hdr n AND NOT HDR_LATEST_MASK\<rparr>],
                     True, Some (length H)) \<and>
              is_big_type rep \<and> is_latest rep \<and> \<not> is_locked rep \<and> version rep = t \<and>
              unat (size_f rep) = sz \<and> take sz (value_start rep) = take sz r \<and>
              big_next rep = Some this \<and> payload_bounds rep)) \<and>
    \<not> is_latest (n\<lparr>hdr := hdr n AND NOT HDR_LATEST_MASK\<rparr>) \<and>
    (\<exists>H' spilled replacement.
        write_record_at H this co t r sz = Inr (H', spilled, replacement) \<and>
        (replacement = None) = is_latest (H' ! this))"
proof -
  have sz: "sz \<le> 65535" using assms(7) by (simp add: node_size_max_def)
  have pb: "length (value_start n) = unat (alloc_size n)" "unat (size_f n) \<le> unat (alloc_size n)"
    using assms(5) by (simp_all add: payload_bounds_def word_le_nat_alt)
  have row1: "write_record_at H this co t r sz =
         Inr (H[this := n\<lparr>version := t, size_f := of_nat sz,
                           value_start := take sz r @ drop sz (value_start n)\<rparr>], False, None)"
    if "co (version n) t" "sz \<le> unat (alloc_size n)"
    using write_inplace [of this H co t sz r] assms that pb by simp
  have rep: "\<exists>rep. write_record_at H this co t r sz =
                Inr ((H @ [rep])[this := n\<lparr>hdr := hdr n AND NOT HDR_LATEST_MASK\<rparr>],
                     \<not> co (version n) t, Some (length H)) \<and>
              is_big_type rep \<and> is_latest rep \<and> \<not> is_locked rep \<and> version rep = t \<and>
              unat (size_f rep) = sz \<and> take sz (value_start rep) = take sz r \<and>
              big_next rep = Some this \<and> payload_bounds rep"
    if c: "if co (version n) t then \<not> sz \<le> unat (alloc_size n)
           else \<not> (IsBigType (hdr n) \<and> sz \<le> unat (alloc_size n))"
  proof -
    from write_replace [of this H sz r co t] assms(1-4,6) sz c obtain a where
      a: "sz \<le> a" "a \<le> 65535" and
      w: "write_record_at H this co t r sz =
        Inr ((H @ [\<lparr>hdr = HDR_TYPE_MASK OR HDR_LATEST_MASK, version = t, size_f = of_nat sz,
                 alloc_size = of_nat a, big_next = Some this,
                 value_start = take sz r @ replicate (a - sz) 0\<rparr>])
           [this := n\<lparr>hdr := hdr n AND NOT HDR_LATEST_MASK\<rparr>],
         \<not> co (version n) t, Some (length H))"
      by auto
    show ?thesis
      apply (subst w)
      apply (rule exI, rule conjI, rule refl)
      using a sz assms(6)
      apply (simp add: is_big_type_def is_latest_def is_locked_def is_latest_new_head
          payload_bounds_def unat_of_nat16 le_of_nat16)
      done
  qed
  have row3: "\<exists>spill. write_record_at H this co t r sz =
                Inr ((H @ [spill])[this := n\<lparr>big_next := Some (length H), version := t,
                                             size_f := of_nat sz,
                                             value_start := take sz r @ drop sz (value_start n)\<rparr>],
                     True, None) \<and>
              is_big_type spill \<and> \<not> is_latest spill"
    if "\<not> co (version n) t" "is_big_type n" "sz \<le> unat (alloc_size n)"
  proof -
    from write_spill [of this H co t sz r] assms(1-4,6) pb that obtain a where
      w: "write_record_at H this co t r sz =
    Inr ((H @ [\<lparr>hdr = HDR_TYPE_MASK, version = version n,
                 size_f = size_f n,
                 alloc_size = of_nat a, big_next = big_next n,
                 value_start = take (unat (size_f n)) (value_start n)
                                @ replicate (a - unat (size_f n)) 0\<rparr>])
           [this := n\<lparr>big_next := Some (length H), version := t, size_f := of_nat sz,
                      value_start := take sz r @ drop sz (value_start n)\<rparr>],
         True, None)"
      by (auto simp add: is_big_type_def)
    show ?thesis
      apply (subst w)
      apply (rule exI, rule conjI, rule refl)
      apply (simp add: is_big_type_def is_latest_def is_latest_new_head)
      done
  qed
  have nl: "\<not> is_latest (n\<lparr>hdr := hdr n AND NOT HDR_LATEST_MASK\<rparr>)"
    by (simp add: is_latest_def latest_cleared)
  have fin: "\<exists>H' spilled replacement.
        write_record_at H this co t r sz = Inr (H', spilled, replacement) \<and>
        (replacement = None) = is_latest (H' ! this)"
  proof (cases "if co (version n) t then \<not> sz \<le> unat (alloc_size n)
           else \<not> (IsBigType (hdr n) \<and> sz \<le> unat (alloc_size n))")
    case True
    from rep [OF True] show ?thesis using assms(1) nl by (auto simp add: nth_list_update)
  next
    case False
    show ?thesis
    proof (cases "co (version n) t")
      case True
      with False row1 have "write_record_at H this co t r sz =
         Inr (H[this := n\<lparr>version := t, size_f := of_nat sz,
                           value_start := take sz r @ drop sz (value_start n)\<rparr>], False, None)"
        by simp
      then show ?thesis using assms(1,4) by (auto simp add: is_latest_def)
    next
      case nco: False
      with False row3 obtain spill where "write_record_at H this co t r sz =
                Inr ((H @ [spill])[this := n\<lparr>big_next := Some (length H), version := t,
                                             size_f := of_nat sz,
                                             value_start := take sz r @ drop sz (value_start n)\<rparr>],
                     True, None)" by (auto simp add: is_big_type_def)
      then show ?thesis using assms(1,4) by (auto simp add: is_latest_def)
    qed
  qed
  show ?thesis
    apply (intro conjI impI)
    subgoal using row1 by simp
    subgoal using rep by simp
    subgoal using row3 by simp
    subgoal using rep by (auto simp add: is_small_type_def is_big_type_def)
    subgoal by (rule nl)
    subgoal by (rule fin)
    done
qed


text \<open>
  The witness, one write for each row: "abc" at version 10 into an empty big node of
  capacity 4 (scenario S2); "hello" into a node of capacity 2 (S4); "bb" at version 20
  over "aa" at version 10 in a big node of capacity 4 without overwrite permission (S3);
  the same on a small node (S5). The predicate is \<open>(\<le>)\<close> where overwriting is allowed
  and \<open>(=)\<close> where it is not.
\<close>

theorem write_record_at_decision_table_witness:
  "is_locked \<lparr>hdr = 0x13, version = 0, size_f = 0, alloc_size = 4, big_next = None,
              value_start = [0, 0, 0, 0]\<rparr> \<and>
   is_latest \<lparr>hdr = 0x13, version = 0, size_f = 0, alloc_size = 4, big_next = None,
              value_start = [0, 0, 0, 0]\<rparr> \<and>
   payload_bounds \<lparr>hdr = 0x13, version = 0, size_f = 0, alloc_size = 4, big_next = None,
              value_start = [0, 0, 0, 0]\<rparr> \<and>
   write_record_at [\<lparr>hdr = 0x13, version = 0, size_f = 0, alloc_size = 4, big_next = None,
                     value_start = [0, 0, 0, 0]\<rparr>] 0 (\<le>) 10 [97, 98, 99] 3
     = Inr ([\<lparr>hdr = 0x13, version = 10, size_f = 3, alloc_size = 4, big_next = None,
                value_start = [97, 98, 99, 0]\<rparr>], False, None) \<and>
   (\<exists>rep. write_record_at [\<lparr>hdr = 0x13, version = 10, size_f = 2, alloc_size = 2,
                              big_next = None, value_start = [97, 97]\<rparr>] 0 (\<le>) 20
              [104, 101, 108, 108, 111] 5
            = Inr ([\<lparr>hdr = 0x03, version = 10, size_f = 2, alloc_size = 2,
                      big_next = None, value_start = [97, 97]\<rparr>, rep], False, Some 1) \<and>
          is_latest rep \<and> version rep = 20 \<and> big_next rep = Some 0 \<and>
          take 5 (value_start rep) = [104, 101, 108, 108, 111]) \<and>
   (\<exists>spill. write_record_at [\<lparr>hdr = 0x13, version = 10, size_f = 2, alloc_size = 4,
                              big_next = None, value_start = [97, 97, 0, 0]\<rparr>] 0 (=) 20
              [98, 98] 2
            = Inr ([\<lparr>hdr = 0x13, version = 20, size_f = 2, alloc_size = 4,
                      big_next = Some 1, value_start = [98, 98, 0, 0]\<rparr>, spill], True, None) \<and>
          \<not> is_latest spill) \<and>
   (\<exists>rep. write_record_at [\<lparr>hdr = 0x11, version = 10, size_f = 2, alloc_size = 2,
                              big_next = None, value_start = [97, 97]\<rparr>] 0 (=) 20
              [98, 98] 2
            = Inr ([\<lparr>hdr = 0x01, version = 10, size_f = 2, alloc_size = 2,
                      big_next = None, value_start = [97, 97]\<rparr>, rep], True, Some 1) \<and>
          is_big_type rep \<and> is_latest rep \<and> version rep = 20 \<and> big_next rep = Some 0 \<and>
          take 2 (value_start rep) = [98, 98])"
proof -
  have m: "(0x13 :: version_t) AND NOT HDR_LATEST_MASK = 0x03"
    "(0x11 :: version_t) AND NOT HDR_LATEST_MASK = 0x01"
    by (simp_all add: hdr_masks)
  note defs = is_locked_def is_latest_def is_big_type_def is_small_type_def hdr_tests hdr_masks
    payload_bounds_def node_size_max_def
  have r1: "write_record_at [\<lparr>hdr = 0x13, version = 0, size_f = 0, alloc_size = 4, big_next = None,
                     value_start = [0, 0, 0, 0]\<rparr>] 0 (\<le>) 10 [97, 98, 99] 3
     = Inr ([\<lparr>hdr = 0x13, version = 10, size_f = 3, alloc_size = 4, big_next = None,
                value_start = [97, 98, 99, 0]\<rparr>], False, None)"
    using write_record_at_decision_table
      [of 0 "[\<lparr>hdr = 0x13, version = 0, size_f = 0, alloc_size = 4, big_next = None,
               value_start = [0, 0, 0, 0]\<rparr>]" _ 3 "[97, 98, 99]" "(\<le>)" 10]
    by (simp add: defs)
  have r2: "\<exists>rep. write_record_at [\<lparr>hdr = 0x13, version = 10, size_f = 2, alloc_size = 2,
                              big_next = None, value_start = [97, 97]\<rparr>] 0 (\<le>) 20
              [104, 101, 108, 108, 111] 5
            = Inr ([\<lparr>hdr = 0x03, version = 10, size_f = 2, alloc_size = 2,
                      big_next = None, value_start = [97, 97]\<rparr>, rep], False, Some 1) \<and>
          is_latest rep \<and> version rep = 20 \<and> big_next rep = Some 0 \<and>
          take 5 (value_start rep) = [104, 101, 108, 108, 111]"
    using write_record_at_decision_table
      [of 0 "[\<lparr>hdr = 0x13, version = 10, size_f = 2, alloc_size = 2,
                              big_next = None, value_start = [97, 97]\<rparr>]" _ 5
          "[104, 101, 108, 108, 111]" "(\<le>)" 20]
    by (auto simp add: defs m)
  have r3: "\<exists>spill. write_record_at [\<lparr>hdr = 0x13, version = 10, size_f = 2, alloc_size = 4,
                              big_next = None, value_start = [97, 97, 0, 0]\<rparr>] 0 (=) 20
              [98, 98] 2
            = Inr ([\<lparr>hdr = 0x13, version = 20, size_f = 2, alloc_size = 4,
                      big_next = Some 1, value_start = [98, 98, 0, 0]\<rparr>, spill], True, None) \<and>
          \<not> is_latest spill"
    using write_record_at_decision_table
      [of 0 "[\<lparr>hdr = 0x13, version = 10, size_f = 2, alloc_size = 4,
                              big_next = None, value_start = [97, 97, 0, 0]\<rparr>]" _ 2
          "[98, 98]" "(=)" 20]
    by (auto simp add: defs)
  have r4: "\<exists>rep. write_record_at [\<lparr>hdr = 0x11, version = 10, size_f = 2, alloc_size = 2,
                              big_next = None, value_start = [97, 97]\<rparr>] 0 (=) 20
              [98, 98] 2
            = Inr ([\<lparr>hdr = 0x01, version = 10, size_f = 2, alloc_size = 2,
                      big_next = None, value_start = [97, 97]\<rparr>, rep], True, Some 1) \<and>
          is_big_type rep \<and> is_latest rep \<and> version rep = 20 \<and> big_next rep = Some 0 \<and>
          take 2 (value_start rep) = [98, 98]"
    using write_record_at_decision_table
      [of 0 "[\<lparr>hdr = 0x11, version = 10, size_f = 2, alloc_size = 2,
                              big_next = None, value_start = [97, 97]\<rparr>]" _ 2
          "[98, 98]" "(=)" 20]
    by (auto simp add: defs m)
  show ?thesis using r1 r2 r3 r4 by (simp add: defs)
qed

text \<open>
  C1 as stated, for every \<open>sz\<close>, fails: with overwrite permission and a payload of 65536
  bytes, more than the capacity, row (2) promises a replacement node, but \<^verbatim>\<open>alloc\<close>
  asserts \<open>sz \<le> 65535\<close> and the call ends in that assertion.
\<close>

theorem write_record_at_oversize_counterexample:
  "is_locked \<lparr>hdr = 0x13, version = 10, size_f = 2, alloc_size = 2, big_next = None,
              value_start = [97, 97]\<rparr> \<and>
   is_latest \<lparr>hdr = 0x13, version = 10, size_f = 2, alloc_size = 2, big_next = None,
              value_start = [97, 97]\<rparr> \<and>
   (10 :: tid_t) \<le> 20 \<and>
   unat (2 :: node_size_type) < 65536 \<and>
   write_record_at [\<lparr>hdr = 0x13, version = 10, size_f = 2, alloc_size = 2, big_next = None,
                     value_start = [97, 97]\<rparr>] 0 (\<le>) 20 (replicate 65536 0) 65536
     = Inl InvariantViolation"
proof -
  have f: "is_locked \<lparr>hdr = 0x13, version = 10, size_f = 2, alloc_size = 2, big_next = None,
              value_start = [97, 97]\<rparr>"
    "is_latest \<lparr>hdr = 0x13, version = 10, size_f = 2, alloc_size = 2, big_next = None,
              value_start = [97, 97]\<rparr>"
    by (simp_all add: is_locked_def is_latest_def hdr_tests hdr_masks)
  show ?thesis
    using f write_too_big [of 0 "[\<lparr>hdr = 0x13, version = 10, size_f = 2, alloc_size = 2,
       big_next = None, value_start = [97, 97]\<rparr>]" 65536 "(\<le>)" 20 "replicate 65536 0"]
    by simp
qed

subsection \<open>Reading\<close>


lemma stable_version_unlocked: "\<not> IsLocked (hdr n) \<Longrightarrow> stable_version n = Some (hdr n)"
  unfolding stable_version_def by (subst stable_version_spin.simps) simp

lemma stable_version_spin_Some:
  "stable_version_spin n v0 = Some v \<Longrightarrow> \<not> IsLocked v \<and> (v = v0 \<or> v = hdr n)"
proof (induction n v0 v rule: stable_version_spin.raw_induct [rotated 1, consumes 1])
  case (1 f n v0 v)
  then show ?case by (auto split: if_splits)
qed

lemma stable_version_Some: "stable_version n = Some v \<Longrightarrow> v = hdr n \<and> \<not> IsLocked (hdr n)"
  unfolding stable_version_def using stable_version_spin_Some [of n "hdr n" v] by auto

lemma stable_version_locked: "IsLocked (hdr n) \<Longrightarrow> stable_version n = None"
  using stable_version_Some [of n] by (cases "stable_version n") auto

lemma get_next_v_same: "get_next_v n (hdr n) = Inr (get_next n)"
  by (simp add: get_next_v_def get_next_def is_big_type_def)

lemma record_at_found:
  assumes "this < length H" "\<not> IsLocked (hdr (H ! this))" "version (H ! this) \<le> t"
    "rl \<longrightarrow> IsLatest (hdr (H ! this))"
    "min (unat (size_f (H ! this))) max_len \<le> length (value_start (H ! this))"
  shows "record_at H this t s r max_len rl =
    Some (Inr (True, version (H ! this),
               take (min (unat (size_f (H ! this))) max_len) (value_start (H ! this))))"
  using assms
  by (subst record_at.simps)
     (simp add: Let_def stable_version_unlocked get_next_v_same get_value_start_same
        is_not_behind_def string_assign_def check_version_def)

lemma record_at_stale:
  assumes "this < length H" "\<not> IsLocked (hdr (H ! this))" "version (H ! this) \<le> t"
    "\<not> IsLatest (hdr (H ! this))"
  shows "record_at H this t s r max_len True = Some (Inr (False, s, r))"
  using assms
  by (subst record_at.simps)
     (simp add: Let_def stable_version_unlocked get_next_v_same is_not_behind_def)

lemma record_at_skip:
  assumes "this < length H" "\<not> IsLocked (hdr (H ! this))" "t < version (H ! this)"
  shows "record_at H this t s r max_len rl =
    (case get_next (H ! this) of
       Some q \<Rightarrow> record_at H q t s r max_len False
     | None \<Rightarrow> Some (Inr (True, MIN_TID, [])))"
  using assms
  by (subst record_at.simps)
     (simp add: Let_def stable_version_unlocked get_next_v_same is_not_behind_def
        check_version_def not_le [symmetric])

lemma record_at_locked:
  assumes "this < length H" "IsLocked (hdr (H ! this))"
  shows "record_at H this t s r max_len rl = None"
  using assms
  by (subst record_at.simps) (simp add: Let_def stable_version_locked)


lemma record_at_False:
  "record_at H this t s r max_len rl = Some y \<Longrightarrow> y = Inr (False, s', r') \<Longrightarrow>
     rl \<and> this < length H \<and> version (H ! this) \<le> t \<and> \<not> IsLatest (hdr (H ! this)) \<and>
     \<not> IsLocked (hdr (H ! this)) \<and> s' = s \<and> r' = r"
proof (induction H this t s r max_len rl y rule: record_at.raw_induct [rotated 1, consumes 1])
  case (1 f H this t s r max_len rl y)
  from "1.hyps" "1.prems" have inr: "this < length H" by (auto split: if_splits)
  from "1.hyps" inr obtain v where sv: "stable_version (H ! this) = Some v"
    by (cases "stable_version (H ! this)") (auto simp add: Let_def)
  from stable_version_Some [OF sv] have v: "v = hdr (H ! this)" "\<not> IsLocked (hdr (H ! this))"
    by simp_all
  show ?case
  proof (cases "is_not_behind (H ! this) t")
    case True
    with "1.hyps" "1.prems" inr sv v show ?thesis
      by (auto simp add: Let_def get_next_v_same get_value_start_same check_version_def
          is_not_behind_def split: if_splits sum.splits)
  next
    case False
    show ?thesis
    proof (cases "get_next (H ! this)")
      case None
      with False "1.hyps" "1.prems" inr sv v show ?thesis
        by (simp add: Let_def get_next_v_same check_version_def)
    next
      case (Some q)
      with False "1.hyps" inr sv v have "f H q t s r max_len False = Some y"
        by (simp add: Let_def get_next_v_same check_version_def)
      from "1.IH" [OF this "1.prems"] show ?thesis by simp
    qed
  qed
qed

lemma linked_Cons:
  "xs \<noteq> [] \<Longrightarrow> linked H (a # xs) = (a < length H \<and> get_next (H ! a) = Some (hd xs) \<and> linked H xs)"
  by (cases xs) simp_all

lemma linked_hd: "linked H (a # xs) \<Longrightarrow> a < length H"
  by (cases xs) simp_all

lemma record_at_walk_off:
  "linked H (a # as) \<Longrightarrow> get_next (H ! last (a # as)) = None \<Longrightarrow>
   \<forall>x\<in>set (a # as). \<not> IsLocked (hdr (H ! x)) \<and> t < version (H ! x) \<Longrightarrow>
   record_at H a t s r max_len rl = Some (Inr (True, MIN_TID, []))"
proof (induction as arbitrary: a rl)
  case Nil
  then show ?case by (simp add: record_at_skip)
next
  case (Cons b as)
  from Cons.prems have a: "a < length H" "get_next (H ! a) = Some b" "linked H (b # as)"
    by simp_all
  from Cons.prems have "get_next (H ! last (b # as)) = None"
    "\<forall>x\<in>set (b # as). \<not> IsLocked (hdr (H ! x)) \<and> t < version (H ! x)"
    by simp_all
  from Cons.IH [OF a(3) this] have "record_at H b t s r max_len False = Some (Inr (True, MIN_TID, []))" .
  with a Cons.prems(3) show ?case by (simp add: record_at_skip)
qed

lemma record_at_walk_to:
  "linked H (pre @ [b]) \<Longrightarrow>
   \<forall>x\<in>set pre. \<not> IsLocked (hdr (H ! x)) \<and> t < version (H ! x) \<Longrightarrow>
   \<not> IsLocked (hdr (H ! b)) \<Longrightarrow> version (H ! b) \<le> t \<Longrightarrow>
   pre = [] \<and> rl \<longrightarrow> IsLatest (hdr (H ! b)) \<Longrightarrow>
   min (unat (size_f (H ! b))) max_len \<le> length (value_start (H ! b)) \<Longrightarrow>
   record_at H (hd (pre @ [b])) t s r max_len rl =
     Some (Inr (True, version (H ! b),
                take (min (unat (size_f (H ! b))) max_len) (value_start (H ! b))))"
proof (induction pre arbitrary: rl)
  case Nil
  then show ?case by (simp add: record_at_found)
next
  case (Cons a pre)
  from Cons.prems(1) have a: "a < length H" "get_next (H ! a) = Some (hd (pre @ [b]))"
    "linked H (pre @ [b])"
    using linked_Cons [of "pre @ [b]" H a] by simp_all
  from Cons.prems(2) have p: "\<forall>x\<in>set pre. \<not> IsLocked (hdr (H ! x)) \<and> t < version (H ! x)"
    and h: "\<not> IsLocked (hdr (H ! a))" "t < version (H ! a)"
    by simp_all
  have "record_at H (hd (pre @ [b])) t s r max_len False =
     Some (Inr (True, version (H ! b),
                take (min (unat (size_f (H ! b))) max_len) (value_start (H ! b))))"
    using Cons.IH [OF a(3) p Cons.prems(3,4) _ Cons.prems(6), of False] by simp
  with a h show ?case by (simp add: record_at_skip)
qed

lemma record_at_True:
  "record_at H this t s r max_len rl = Some y \<Longrightarrow> y = Inr (True, s', r') \<Longrightarrow>
     (\<exists>b<length H. version (H ! b) \<le> t \<and> s' = version (H ! b) \<and>
         length r' = min (unat (size_f (H ! b))) max_len \<and>
         r' = take (length r') (value_start (H ! b))) \<or>
     (s' = MIN_TID \<and> r' = [])"
proof (induction H this t s r max_len rl y rule: record_at.raw_induct [rotated 1, consumes 1])
  case (1 f H this t s r max_len rl y)
  from "1.hyps" "1.prems" have inr: "this < length H" by (auto split: if_splits)
  from "1.hyps" inr obtain v where sv: "stable_version (H ! this) = Some v"
    by (cases "stable_version (H ! this)") (auto simp add: Let_def)
  from stable_version_Some [OF sv] have v: "v = hdr (H ! this)" "\<not> IsLocked (hdr (H ! this))"
    by simp_all
  show ?case
  proof (cases "is_not_behind (H ! this) t")
    case True
    with "1.hyps" "1.prems" inr sv v have
      "version (H ! this) \<le> t \<and> s' = version (H ! this) \<and>
         length r' = min (unat (size_f (H ! this))) max_len \<and>
         r' = take (length r') (value_start (H ! this))"
      by (auto simp add: Let_def get_next_v_same get_value_start_same check_version_def
          is_not_behind_def string_assign_def split: if_splits sum.splits)
    with inr show ?thesis by blast
  next
    case False
    show ?thesis
    proof (cases "get_next (H ! this)")
      case None
      with False "1.hyps" "1.prems" inr sv v show ?thesis
        by (simp add: Let_def get_next_v_same check_version_def)
    next
      case (Some q)
      with False "1.hyps" inr sv v have "f H q t s r max_len False = Some y"
        by (simp add: Let_def get_next_v_same check_version_def)
      from "1.IH" [OF this "1.prems"] show ?thesis by simp
    qed
  qed
qed


text \<open>
  C3. For a chain that starts at the node \<open>a\<close> and of which every node has a version
  greater than \<open>t\<close>, \<^verbatim>\<open>stable_read(t, start_t, r, max_len)\<close> walks the whole chain to
  the null next pointer of the tail and returns true with \<^verbatim>\<open>start_t = MIN_TID = 0\<close> and
  the empty payload, whatever the caller's \<^verbatim>\<open>start_t\<close> and \<^verbatim>\<open>r\<close> were and whether or
  not the head is latest. No node of the chain is locked (a reader waits for a locked
  node), and \<open>max_len > 0\<close> as \<^verbatim>\<open>stable_read\<close> asserts.
\<close>

theorem stable_read_walks_off_tail:
  assumes "is_chain H (a # as)"
    "\<forall>x\<in>set (a # as). \<not> is_locked (H ! x) \<and> t < version (H ! x)"
    "0 < max_len"
  shows "stable_read H a t start_t r max_len = Some (Inr (True, MIN_TID, [])) \<and> MIN_TID = 0"
  using assms record_at_walk_off [of H a as t start_t r max_len True]
  by (simp add: stable_read_def is_chain_def is_locked_def MIN_TID_def)

text \<open>
  The witness: the chain of "bb" at version 20 and "aa" at version 10, read at TID 5.
\<close>

theorem stable_read_walks_off_tail_witness:
  "is_chain [\<lparr>hdr = 0x12, version = 20, size_f = 2, alloc_size = 4, big_next = Some 1,
              value_start = [98, 98, 0, 0]\<rparr>,
             \<lparr>hdr = 0x02, version = 10, size_f = 2, alloc_size = 8, big_next = None,
              value_start = [97, 97, 0, 0, 0, 0, 0, 0]\<rparr>] [0, 1] \<and>
   \<not> is_locked \<lparr>hdr = 0x12, version = 20, size_f = 2, alloc_size = 4, big_next = Some 1,
              value_start = [98, 98, 0, 0]\<rparr> \<and>
   \<not> is_locked \<lparr>hdr = 0x02, version = 10, size_f = 2, alloc_size = 8, big_next = None,
              value_start = [97, 97, 0, 0, 0, 0, 0, 0]\<rparr> \<and>
   (5 :: tid_t) < 20 \<and> (5 :: tid_t) < 10 \<and> (0 :: nat) < 1024 \<and>
   stable_read [\<lparr>hdr = 0x12, version = 20, size_f = 2, alloc_size = 4, big_next = Some 1,
              value_start = [98, 98, 0, 0]\<rparr>,
             \<lparr>hdr = 0x02, version = 10, size_f = 2, alloc_size = 8, big_next = None,
              value_start = [97, 97, 0, 0, 0, 0, 0, 0]\<rparr>] 0 5 77 [1, 2, 3] 1024
     = Some (Inr (True, 0, []))"
proof -
  note defs = is_chain_def get_next_def is_big_type_def is_locked_def hdr_tests hdr_masks
  have c: "is_chain [\<lparr>hdr = 0x12, version = 20, size_f = 2, alloc_size = 4, big_next = Some 1,
              value_start = [98, 98, 0, 0]\<rparr>,
             \<lparr>hdr = 0x02, version = 10, size_f = 2, alloc_size = 8, big_next = None,
              value_start = [97, 97, 0, 0, 0, 0, 0, 0]\<rparr>] [0, 1]"
    by (simp add: defs)
  show ?thesis
    using c stable_read_walks_off_tail [OF c, of 5 1024 77 "[1, 2, 3]"]
    by (simp add: is_locked_def hdr_tests hdr_masks MIN_TID_def)
qed

text \<open>
  C5. For a node that is not locked, whose header has the latest flag clear and whose
  version is at most \<open>t\<close>, \<^verbatim>\<open>stable_read(t, ...)\<close> returns false and leaves the caller's
  \<^verbatim>\<open>start_t\<close> and \<^verbatim>\<open>r\<close> as they were; nothing is assumed of the next pointer, which
  is not followed. Conversely, whenever \<^verbatim>\<open>stable_read\<close> returns false, the version of
  the node is at most \<open>t\<close> and its latest flag is clear.
\<close>

theorem stable_read_stale_head:
  "(this < length H \<and> \<not> is_locked (H ! this) \<and> \<not> is_latest (H ! this) \<and>
      version (H ! this) \<le> t \<and> 0 < max_len \<longrightarrow>
      stable_read H this t start_t r max_len = Some (Inr (False, start_t, r))) \<and>
   (stable_read H this t start_t r max_len = Some (Inr (False, s', r')) \<longrightarrow>
      this < length H \<and> version (H ! this) \<le> t \<and> \<not> is_latest (H ! this) \<and>
      s' = start_t \<and> r' = r)"
proof -
  have p1: "stable_read H this t start_t r max_len = Some (Inr (False, start_t, r))"
    if "this < length H \<and> \<not> is_locked (H ! this) \<and> \<not> is_latest (H ! this) \<and>
      version (H ! this) \<le> t \<and> 0 < max_len"
    using that by (simp add: stable_read_def is_locked_def is_latest_def record_at_stale)
  have p2: "this < length H \<and> version (H ! this) \<le> t \<and> \<not> is_latest (H ! this) \<and>
      s' = start_t \<and> r' = r"
    if a: "stable_read H this t start_t r max_len = Some (Inr (False, s', r'))"
  proof -
    from a have "record_at H this t start_t r max_len True = Some (Inr (False, s', r'))"
      by (simp add: stable_read_def split: if_splits)
    from record_at_False [OF this refl] show ?thesis by (simp add: is_latest_def)
  qed
  from p1 p2 show ?thesis by blast
qed

text \<open>
  The witness: a non-latest node at version 10 whose next pointer is not an address of
  the store, read at TID 15.
\<close>

theorem stable_read_stale_head_witness:
  "(0 :: nat) < length [\<lparr>hdr = 0x02, version = 10, size_f = 2, alloc_size = 2,
                        big_next = Some 7, value_start = [97, 97]\<rparr>] \<and>
   \<not> is_locked \<lparr>hdr = 0x02, version = 10, size_f = 2, alloc_size = 2,
                big_next = Some 7, value_start = [97, 97]\<rparr> \<and>
   \<not> is_latest \<lparr>hdr = 0x02, version = 10, size_f = 2, alloc_size = 2,
                big_next = Some 7, value_start = [97, 97]\<rparr> \<and>
   (10 :: tid_t) \<le> 15 \<and> (0 :: nat) < 1024 \<and>
   stable_read [\<lparr>hdr = 0x02, version = 10, size_f = 2, alloc_size = 2,
                 big_next = Some 7, value_start = [97, 97]\<rparr>] 0 15 77 [1, 2, 3] 1024
     = Some (Inr (False, 77, [1, 2, 3]))"
  using stable_read_stale_head
    [of 0 "[\<lparr>hdr = 0x02, version = 10, size_f = 2, alloc_size = 2,
              big_next = Some 7, value_start = [97, 97]\<rparr>]" 15 1024 77 "[1, 2, 3]"]
  by (simp add: is_locked_def is_latest_def hdr_tests hdr_masks)


lemma fresh_hdr:
  "IsLatest ((if big then HDR_TYPE_MASK else 0) OR HDR_LATEST_MASK)"
  "\<not> IsLocked ((if big then HDR_TYPE_MASK else 0) OR HDR_LATEST_MASK)"
  "\<not> IsDeleting ((if big then HDR_TYPE_MASK else 0) OR HDR_LATEST_MASK)"
  "\<not> IsEnqueued ((if big then HDR_TYPE_MASK else 0) OR HDR_LATEST_MASK)"
  "IsBigType ((if big then HDR_TYPE_MASK else 0) OR HDR_LATEST_MASK) = big"
  "Version ((if big then HDR_TYPE_MASK else 0) OR HDR_LATEST_MASK) = 0"
  by (simp_all add: hdr_tests hdr_masks Version_eq)

text \<open>
  C6. Whenever \<^verbatim>\<open>alloc_first(big_type, requested_capacity)\<close> returns, it returns a new
  node whose header has the latest flag set, the locked, deleted and enqueued flags
  clear, the type bit set iff \<^verbatim>\<open>big_type\<close> and the counter 0, with
  \<^verbatim>\<open>version = MIN_TID = 0\<close>, \<^verbatim>\<open>size = 0\<close> and a null next pointer, and a
  \<^verbatim>\<open>stable_read\<close> of that node with any reader TID \<open>t\<close> (and \<open>max_len > 0\<close>, as it
  asserts) returns true with \<^verbatim>\<open>start_t = 0\<close> and the empty payload, whatever the
  caller's \<^verbatim>\<open>start_t\<close> and \<^verbatim>\<open>r\<close> were. It does return for every capacity within the
  bound 65535 of its assertion.
\<close>

theorem alloc_first_fresh_node:
  "(cap \<le> node_size_max \<longrightarrow> (\<exists>n. alloc_first H big cap = Inr (H @ [n], length H))) \<and>
   (alloc_first H big cap = Inr (H', p) \<longrightarrow>
      p = length H \<and>
      (\<exists>n. H' = H @ [n] \<and>
           hdr n = (if big then HDR_TYPE_MASK else 0) OR HDR_LATEST_MASK \<and>
           is_latest n \<and> \<not> is_locked n \<and> \<not> is_deleting n \<and> \<not> is_enqueued n \<and>
           is_big_type n = big \<and> Version (hdr n) = 0 \<and>
           version n = MIN_TID \<and> MIN_TID = 0 \<and> size_f n = 0 \<and>
           big_next n = None \<and> get_next n = None \<and>
           (0 < max_len \<longrightarrow>
              stable_read H' p t start_t r max_len = Some (Inr (True, 0, [])))))"
proof -
  have main: "\<exists>n. alloc_first H big cap = Inr (H @ [n], length H) \<and>
           hdr n = (if big then HDR_TYPE_MASK else 0) OR HDR_LATEST_MASK \<and>
           is_latest n \<and> \<not> is_locked n \<and> \<not> is_deleting n \<and> \<not> is_enqueued n \<and>
           is_big_type n = big \<and> Version (hdr n) = 0 \<and>
           version n = MIN_TID \<and> MIN_TID = 0 \<and> size_f n = 0 \<and>
           big_next n = None \<and> get_next n = None \<and>
           (0 < max_len \<longrightarrow>
              stable_read (H @ [n]) (length H) t start_t r max_len = Some (Inr (True, 0, [])))"
    if c: "cap \<le> 65535"
  proof -
    from alloc_first_ex [OF c, of big H] obtain a where
      e: "alloc_first H big cap =
        Inr (H @ [\<lparr>hdr = (if big then HDR_TYPE_MASK else 0) OR HDR_LATEST_MASK,
                   version = MIN_TID, size_f = 0, alloc_size = of_nat a, big_next = None,
                   value_start = replicate a 0\<rparr>], length H)"
      by blast
    let ?n = "\<lparr>hdr = (if big then HDR_TYPE_MASK else 0) OR HDR_LATEST_MASK,
                   version = MIN_TID, size_f = 0, alloc_size = of_nat a, big_next = None,
                   value_start = replicate a 0\<rparr>"
    have rd: "record_at (H @ [?n]) (length H) t start_t r max_len True =
        Some (Inr (True, version ((H @ [?n]) ! length H),
                 take (min (unat (size_f ((H @ [?n]) ! length H))) max_len)
                      (value_start ((H @ [?n]) ! length H))))"
      by (rule record_at_found) (simp_all add: fresh_hdr MIN_TID_def)
    have "stable_read (H @ [?n]) (length H) t start_t r max_len = Some (Inr (True, 0, []))"
      if "0 < max_len"
      using that rd by (simp add: stable_read_def MIN_TID_def)
    then show ?thesis
      apply (subst e)
      apply (rule exI [of _ ?n])
      apply (simp add: is_latest_def is_locked_def is_deleting_def is_enqueued_def
          is_big_type_def get_next_def fresh_hdr MIN_TID_def)
      done
  qed
  have p1: "\<exists>n. alloc_first H big cap = Inr (H @ [n], length H)" if "cap \<le> node_size_max"
    using main that by (auto simp add: node_size_max_def)
  have p2: "p = length H \<and>
      (\<exists>n. H' = H @ [n] \<and>
           hdr n = (if big then HDR_TYPE_MASK else 0) OR HDR_LATEST_MASK \<and>
           is_latest n \<and> \<not> is_locked n \<and> \<not> is_deleting n \<and> \<not> is_enqueued n \<and>
           is_big_type n = big \<and> Version (hdr n) = 0 \<and>
           version n = MIN_TID \<and> MIN_TID = 0 \<and> size_f n = 0 \<and>
           big_next n = None \<and> get_next n = None \<and>
           (0 < max_len \<longrightarrow>
              stable_read H' p t start_t r max_len = Some (Inr (True, 0, []))))"
    if r: "alloc_first H big cap = Inr (H', p)"
  proof -
    have c: "cap \<le> 65535"
    proof (rule ccontr)
      assume "\<not> cap \<le> 65535"
      then have "alloc_first H big cap = Inl InvariantViolation"
        by (simp add: alloc_first_too_big)
      with r show False by simp
    qed
    from main [OF c] r show ?thesis by auto
  qed
  from p1 p2 show ?thesis by blast
qed

text \<open>
  The witness is scenario S1: a big first node of capacity 64, read at TID 100 with
  \<open>max_len = 1024\<close>.
\<close>

theorem alloc_first_fresh_node_witness:
  "64 \<le> node_size_max \<and> (0 :: nat) < 1024 \<and>
   (\<exists>n. alloc_first [] True 64 = Inr ([n], 0) \<and> hdr n = 0x12 \<and> version n = 0 \<and>
        size_f n = 0 \<and> big_next n = None \<and>
        stable_read [n] 0 100 77 [1, 2, 3] 1024 = Some (Inr (True, 0, [])))"
proof -
  have h: "64 \<le> node_size_max" by (simp add: node_size_max_def)
  from alloc_first_fresh_node [where cap = 64 and H = "[]" and big = True, THEN conjunct1] h
  obtain n where
    e: "alloc_first [] True 64 = Inr ([n], 0)"
    by auto
  from alloc_first_fresh_node [of 64 "[]" True "[n]" 0 1024 100 77 "[1, 2, 3]"] e
  have "hdr n = 0x12 \<and> version n = 0 \<and> size_f n = 0 \<and> big_next n = None \<and>
        stable_read [n] 0 100 77 [1, 2, 3] 1024 = Some (Inr (True, 0, []))"
    by (simp add: hdr_masks MIN_TID_def)
  with h e show ?thesis by auto
qed

text \<open>
  C10. \<^verbatim>\<open>stable_read\<close> asserts \<open>max_len > 0\<close>: with \<open>max_len = 0\<close> it ends in the
  assertion. With \<open>max_len > 0\<close>: whenever it returns true, either the result is the
  version of a node of the store that satisfies \<open>t\<close>, with a payload of exactly
  \<open>min size max_len\<close> bytes of that node, or it is the result of walking off the tail,
  with payload length 0; in both cases the payload is no longer than \<open>max_len\<close>. And it
  does return so: on a chain whose first nodes are newer than \<open>t\<close> and whose next node
  \<open>b\<close> satisfies \<open>t\<close> (none of them locked, \<open>b\<close> latest if it is the head, \<open>b\<close> within
  its payload bounds) it returns the first \<open>min size max_len\<close> bytes of \<open>b\<close>, never
  more than \<open>max_len\<close> nor than the size; on a chain of nodes all newer than \<open>t\<close> it
  returns a payload of length 0.
\<close>

theorem stable_read_payload_length:
  "stable_read H this t start_t r 0 = Some (Inl InvariantViolation) \<and>
   (0 < max_len \<and> stable_read H this t start_t r max_len = Some (Inr (True, s', r')) \<longrightarrow>
      ((\<exists>b<length H. version (H ! b) \<le> t \<and> s' = version (H ! b) \<and>
           length r' = min (unat (size_f (H ! b))) max_len \<and>
           r' = take (length r') (value_start (H ! b))) \<or>
       (s' = MIN_TID \<and> length r' = 0)) \<and>
      length r' \<le> max_len) \<and>
   (0 < max_len \<and> linked H (pre @ [b]) \<and>
    (\<forall>x\<in>set pre. \<not> is_locked (H ! x) \<and> t < version (H ! x)) \<and>
    \<not> is_locked (H ! b) \<and> version (H ! b) \<le> t \<and> (pre = [] \<longrightarrow> is_latest (H ! b)) \<and>
    payload_bounds (H ! b) \<longrightarrow>
      (\<exists>p. stable_read H (hd (pre @ [b])) t start_t r max_len =
               Some (Inr (True, version (H ! b), p)) \<and>
           p = take (min (unat (size_f (H ! b))) max_len) (value_start (H ! b)) \<and>
           length p = min (unat (size_f (H ! b))) max_len \<and>
           length p \<le> max_len \<and> length p \<le> unat (size_f (H ! b)))) \<and>
   (0 < max_len \<and> is_chain H (a # as) \<and>
    (\<forall>x\<in>set (a # as). \<not> is_locked (H ! x) \<and> t < version (H ! x)) \<longrightarrow>
      (\<exists>p. stable_read H a t start_t r max_len = Some (Inr (True, MIN_TID, p)) \<and> length p = 0))"
proof -
  have p0: "stable_read H this t start_t r 0 = Some (Inl InvariantViolation)"
    by (simp add: stable_read_def)
  have p1: "((\<exists>b<length H. version (H ! b) \<le> t \<and> s' = version (H ! b) \<and>
           length r' = min (unat (size_f (H ! b))) max_len \<and>
           r' = take (length r') (value_start (H ! b))) \<or>
       (s' = MIN_TID \<and> length r' = 0)) \<and>
      length r' \<le> max_len"
    if "0 < max_len \<and> stable_read H this t start_t r max_len = Some (Inr (True, s', r'))"
  proof -
    from that have "record_at H this t start_t r max_len True = Some (Inr (True, s', r'))"
      by (auto simp add: stable_read_def split: if_splits)
    from record_at_True [OF this refl] show ?thesis by auto
  qed
  have p2: "\<exists>p. stable_read H (hd (pre @ [b])) t start_t r max_len =
               Some (Inr (True, version (H ! b), p)) \<and>
           p = take (min (unat (size_f (H ! b))) max_len) (value_start (H ! b)) \<and>
           length p = min (unat (size_f (H ! b))) max_len \<and>
           length p \<le> max_len \<and> length p \<le> unat (size_f (H ! b))"
    if h: "0 < max_len \<and> linked H (pre @ [b]) \<and>
    (\<forall>x\<in>set pre. \<not> is_locked (H ! x) \<and> t < version (H ! x)) \<and>
    \<not> is_locked (H ! b) \<and> version (H ! b) \<le> t \<and> (pre = [] \<longrightarrow> is_latest (H ! b)) \<and>
    payload_bounds (H ! b)"
  proof -
    from h have "payload_bounds (H ! b)" by simp
    then have "unat (size_f (H ! b)) \<le> length (value_start (H ! b))"
      by (simp add: payload_bounds_def word_le_nat_alt)
    then have fit: "min (unat (size_f (H ! b))) max_len \<le> length (value_start (H ! b))"
      by simp
    from h have "record_at H (hd (pre @ [b])) t start_t r max_len True =
     Some (Inr (True, version (H ! b),
                take (min (unat (size_f (H ! b))) max_len) (value_start (H ! b))))"
      by (intro record_at_walk_to fit) (simp_all add: is_locked_def is_latest_def)
    with h fit show ?thesis by (simp add: stable_read_def)
  qed
  have p3: "\<exists>p. stable_read H a t start_t r max_len = Some (Inr (True, MIN_TID, p)) \<and> length p = 0"
    if h: "0 < max_len \<and> is_chain H (a # as) \<and>
    (\<forall>x\<in>set (a # as). \<not> is_locked (H ! x) \<and> t < version (H ! x))"
    using h record_at_walk_off [of H a as t start_t r max_len True]
    by (simp add: stable_read_def is_chain_def is_locked_def)
  from p0 p1 p2 p3 show ?thesis by blast
qed

text \<open>
  The witness: the chain of "bb" at version 20 and "aa" at version 10, read with
  \<open>max_len = 0\<close>, then at TID 15 with \<open>max_len = 1\<close> (one byte of "aa") and at TID 5.
\<close>

theorem stable_read_payload_length_witness:
  "stable_read [\<lparr>hdr = 0x12, version = 20, size_f = 2, alloc_size = 4, big_next = Some 1,
              value_start = [98, 98, 0, 0]\<rparr>,
             \<lparr>hdr = 0x02, version = 10, size_f = 2, alloc_size = 8, big_next = None,
              value_start = [97, 97, 0, 0, 0, 0, 0, 0]\<rparr>] 0 15 77 [1, 2, 3] 0
     = Some (Inl InvariantViolation) \<and>
   (0 :: nat) < 1 \<and>
   linked [\<lparr>hdr = 0x12, version = 20, size_f = 2, alloc_size = 4, big_next = Some 1,
              value_start = [98, 98, 0, 0]\<rparr>,
             \<lparr>hdr = 0x02, version = 10, size_f = 2, alloc_size = 8, big_next = None,
              value_start = [97, 97, 0, 0, 0, 0, 0, 0]\<rparr>] ([0] @ [1]) \<and>
   payload_bounds \<lparr>hdr = 0x02, version = 10, size_f = 2, alloc_size = 8, big_next = None,
              value_start = [97, 97, 0, 0, 0, 0, 0, 0]\<rparr> \<and>
   (15 :: tid_t) < 20 \<and> (10 :: tid_t) \<le> 15 \<and>
   stable_read [\<lparr>hdr = 0x12, version = 20, size_f = 2, alloc_size = 4, big_next = Some 1,
              value_start = [98, 98, 0, 0]\<rparr>,
             \<lparr>hdr = 0x02, version = 10, size_f = 2, alloc_size = 8, big_next = None,
              value_start = [97, 97, 0, 0, 0, 0, 0, 0]\<rparr>] 0 15 77 [1, 2, 3] 1
     = Some (Inr (True, 10, [97])) \<and>
   length [97 :: byte] = min (unat (2 :: node_size_type)) 1 \<and>
   is_chain [\<lparr>hdr = 0x12, version = 20, size_f = 2, alloc_size = 4, big_next = Some 1,
              value_start = [98, 98, 0, 0]\<rparr>,
             \<lparr>hdr = 0x02, version = 10, size_f = 2, alloc_size = 8, big_next = None,
              value_start = [97, 97, 0, 0, 0, 0, 0, 0]\<rparr>] [0, 1] \<and>
   (5 :: tid_t) < 20 \<and> (5 :: tid_t) < 10 \<and>
   stable_read [\<lparr>hdr = 0x12, version = 20, size_f = 2, alloc_size = 4, big_next = Some 1,
              value_start = [98, 98, 0, 0]\<rparr>,
             \<lparr>hdr = 0x02, version = 10, size_f = 2, alloc_size = 8, big_next = None,
              value_start = [97, 97, 0, 0, 0, 0, 0, 0]\<rparr>] 0 5 77 [1, 2, 3] 1
     = Some (Inr (True, 0, []))"
proof -
  let ?H = "[\<lparr>hdr = 0x12, version = 20, size_f = 2, alloc_size = 4, big_next = Some 1,
              value_start = [98, 98, 0, 0]\<rparr>,
             \<lparr>hdr = 0x02, version = 10, size_f = 2, alloc_size = 8, big_next = None,
              value_start = [97, 97, 0, 0, 0, 0, 0, 0]\<rparr>]"
  note defs = is_chain_def get_next_def is_big_type_def is_locked_def is_latest_def
    payload_bounds_def hdr_tests hdr_masks MIN_TID_def
  show ?thesis
    using stable_read_payload_length
        [where H = ?H and this = 0 and t = 15 and start_t = 77 and r = "[1, 2, 3]"
           and max_len = 1 and s' = 10 and r' = "[97]" and pre = "[0]" and b = 1
           and a = 0 and as = "[1]"]
      stable_read_payload_length
        [where H = ?H and this = 0 and t = 5 and start_t = 77 and r = "[1, 2, 3]"
           and max_len = 1 and s' = 0 and r' = "[]" and pre = "[]" and b = 0
           and a = 0 and as = "[1]"]
    by (simp add: defs)
qed


text \<open>
  C2. The spill path of \<^verbatim>\<open>write_record_at\<close>: the node is locked, latest and big,
  \<^verbatim>\<open>can_overwrite\<close> is false of its version and \<open>t\<close>, and \<open>sz \<le> alloc_size\<close>. A new
  non-latest big node is allocated that carries the live payload bytes and the version
  of this node and whose next pointer is the old next of this node; the next pointer
  of this node is set to the new node and this node is overwritten in place with
  \<open>t\<close>, \<open>sz\<close> and the payload; the result is (true, none). After the unlock, a read at a
  TID of at least \<open>t\<close> returns the new version and payload, a read at a TID below \<open>t\<close>
  that the old version satisfies returns the old version and payload, and a read below
  both, when the old next pointer was null, returns (true, \<^verbatim>\<open>MIN_TID\<close>, empty). The node
  is within its payload bounds and \<open>r\<close> holds at least \<open>sz\<close> bytes; reads have
  \<open>max_len > 0\<close>.
\<close>

theorem spill_keeps_old_version:
  assumes "this < length H" "n = H ! this" "is_locked n" "is_latest n" "is_big_type n"
    "\<not> co (version n) t" "sz \<le> unat (alloc_size n)" "payload_bounds n" "sz \<le> length r"
  shows "\<exists>H' spill n'.
     write_record_at H this co t r sz = Inr (H', True, None) \<and>
     H' = (H @ [spill])[this := n\<lparr>big_next := Some (length H), version := t,
                                   size_f := of_nat sz,
                                   value_start := take sz r @ drop sz (value_start n)\<rparr>] \<and>
     unat (of_nat sz :: node_size_type) = sz \<and>
     is_big_type spill \<and> \<not> is_latest spill \<and> \<not> is_locked spill \<and>
     version spill = version n \<and> size_f spill = size_f n \<and>
     take (unat (size_f n)) (value_start spill) = take (unat (size_f n)) (value_start n) \<and>
     big_next spill = big_next n \<and> payload_bounds spill \<and>
     unlock (H' ! this) = Inr n' \<and>
     (\<forall>t' max_len s0 r0. 0 < max_len \<longrightarrow>
        (t \<le> t' \<longrightarrow>
           stable_read (H'[this := n']) this t' s0 r0 max_len =
             Some (Inr (True, t, take (min sz max_len) r))) \<and>
        (t' < t \<and> version n \<le> t' \<longrightarrow>
           stable_read (H'[this := n']) this t' s0 r0 max_len =
             Some (Inr (True, version n,
                        take (min (unat (size_f n)) max_len) (value_start n)))) \<and>
        (t' < t \<and> t' < version n \<and> big_next n = None \<longrightarrow>
           stable_read (H'[this := n']) this t' s0 r0 max_len =
             Some (Inr (True, MIN_TID, []))))"
proof -
  have pb: "length (value_start n) = unat (alloc_size n)" "unat (size_f n) \<le> unat (alloc_size n)"
    using assms(8) by (simp_all add: payload_bounds_def word_le_nat_alt)
  have a65: "unat (alloc_size n) \<le> 65535"
    using unsigned_less [of "alloc_size n", where ?'a = nat] by simp
  have sz: "unat (of_nat sz :: node_size_type) = sz"
    using assms(7) a65 by (simp add: unat_of_nat16)
  from write_spill [of this H co t sz r] assms pb obtain a where
    a: "unat (size_f n) \<le> a" "a \<le> 65535" and
    w: "write_record_at H this co t r sz =
    Inr ((H @ [\<lparr>hdr = HDR_TYPE_MASK, version = version n,
                 size_f = size_f n,
                 alloc_size = of_nat a, big_next = big_next n,
                 value_start = take (unat (size_f n)) (value_start n)
                                @ replicate (a - unat (size_f n)) 0\<rparr>])
           [this := n\<lparr>big_next := Some (length H), version := t, size_f := of_nat sz,
                      value_start := take sz r @ drop sz (value_start n)\<rparr>],
         True, None)"
    by (auto simp add: is_big_type_def)
  define spill where "spill = \<lparr>hdr = HDR_TYPE_MASK, version = version n,
                 size_f = size_f n,
                 alloc_size = of_nat a, big_next = big_next n,
                 value_start = take (unat (size_f n)) (value_start n)
                                @ replicate (a - unat (size_f n)) 0\<rparr>"
  define n2 where "n2 = n\<lparr>big_next := Some (length H), version := t, size_f := of_nat sz,
                      value_start := take sz r @ drop sz (value_start n)\<rparr>"
  define n3 where "n3 = n2\<lparr>hdr := unlock_spec_hdr (hdr n)\<rparr>"
  define H2 where "H2 = (H @ [spill])[this := n3]"
  have sp: "is_big_type spill" "\<not> is_latest spill" "\<not> is_locked spill"
    "version spill = version n" "size_f spill = size_f n"
    "take (unat (size_f n)) (value_start spill) = take (unat (size_f n)) (value_start n)"
    "big_next spill = big_next n" "payload_bounds spill"
    "length (value_start spill) = a"
    using a pb
    by (simp_all add: spill_def is_big_type_def is_latest_def is_locked_def is_latest_new_head
        payload_bounds_def unat_of_nat16 word_le_nat_alt)
  have u: "unlock (((H @ [spill])[this := n2]) ! this) = Inr n3"
    using assms(1,3) by (simp add: n3_def n2_def unlock_eq is_locked_def)
  have H2: "length H2 = Suc (length H)" "H2 ! this = n3" "H2 ! length H = spill"
    "this < length H2" "length H < length H2"
    using assms(1) by (simp_all add: H2_def nth_list_update nth_append)
  have n3: "\<not> IsLocked (hdr n3)" "IsLatest (hdr n3)" "version n3 = t"
    "unat (size_f n3) = sz" "value_start n3 = take sz r @ drop sz (value_start n)"
    "get_next n3 = Some (length H)"
    using assms(4,5) sz
    by (simp_all add: n3_def n2_def flags_unlocked is_latest_def is_big_type_def get_next_def)
  have len3: "sz \<le> length (value_start n3)"
    using assms(7,9) pb by (simp add: n3)
  have gs: "get_next spill = big_next n"
    using sp by (simp add: get_next_def)
  have rd1: "stable_read H2 this t' s0 r0 max_len = Some (Inr (True, t, take (min sz max_len) r))"
    if "0 < max_len" "t \<le> t'" for t' max_len s0 r0
  proof -
    have "record_at H2 this t' s0 r0 max_len True =
      Some (Inr (True, version (H2 ! this),
               take (min (unat (size_f (H2 ! this))) max_len) (value_start (H2 ! this))))"
      using that n3 len3 H2 by (intro record_at_found) simp_all
    moreover have "take (min sz max_len) (take sz r @ drop sz (value_start n)) = take (min sz max_len) r"
      using assms(9) by simp
    ultimately show ?thesis using that n3 H2 by (simp add: stable_read_def)
  qed
  have rd2: "stable_read H2 this t' s0 r0 max_len =
      Some (Inr (True, version n, take (min (unat (size_f n)) max_len) (value_start n)))"
    if "0 < max_len" "t' < t" "version n \<le> t'" for t' max_len s0 r0
  proof -
    have "record_at H2 (hd ([this] @ [length H])) t' s0 r0 max_len True =
      Some (Inr (True, version (H2 ! length H),
               take (min (unat (size_f (H2 ! length H))) max_len) (value_start (H2 ! length H))))"
      using that n3 H2 sp a
      by (intro record_at_walk_to) (simp_all add: is_locked_def)
    moreover have "take (min (unat (size_f n)) max_len) (value_start spill) =
        take (min (unat (size_f n)) max_len) (value_start n)"
      using pb by (simp add: spill_def)
    ultimately show ?thesis using that H2 sp by (simp add: stable_read_def)
  qed
  have rd3: "stable_read H2 this t' s0 r0 max_len = Some (Inr (True, MIN_TID, []))"
    if "0 < max_len" "t' < t" "t' < version n" "big_next n = None" for t' max_len s0 r0
  proof -
    have "record_at H2 this t' s0 r0 max_len True = Some (Inr (True, MIN_TID, []))"
      using that n3 H2 sp gs
      by (intro record_at_walk_off [where as = "[length H]"]) (simp_all add: is_locked_def)
    then show ?thesis using that by (simp add: stable_read_def)
  qed
  show ?thesis
    apply (rule exI [of _ "(H @ [spill])[this := n2]"])
    apply (rule exI [of _ spill])
    apply (rule exI [of _ n3])
    apply (intro conjI)
    subgoal using w by (simp add: spill_def n2_def)
    subgoal by (simp add: n2_def)
    subgoal by (rule sz)
    subgoal by (rule sp)
    subgoal by (rule sp)
    subgoal by (rule sp)
    subgoal by (rule sp)
    subgoal by (rule sp)
    subgoal by (rule sp)
    subgoal by (rule sp)
    subgoal by (rule sp)
    subgoal by (rule u)
    subgoal using rd1 rd2 rd3 by (simp add: H2_def)
    done
qed


text \<open>
  The witness is scenario S3: a big node of capacity 4 with "aa" at version 10 is
  locked, "bb" is written at version 20 without overwrite permission, the node is
  unlocked, and reads at the TIDs 20, 15 and 5 return "bb" at 20, "aa" at 10 and the
  empty record at 0.
\<close>

theorem spill_keeps_old_version_witness:
  "lock \<lparr>hdr = 0x12, version = 10, size_f = 2, alloc_size = 4, big_next = None,
         value_start = [97, 97, 0, 0]\<rparr>
     = Some (Inr (\<lparr>hdr = 0x13, version = 10, size_f = 2, alloc_size = 4, big_next = None,
                   value_start = [97, 97, 0, 0]\<rparr>, 0x13)) \<and>
   is_locked \<lparr>hdr = 0x13, version = 10, size_f = 2, alloc_size = 4, big_next = None,
              value_start = [97, 97, 0, 0]\<rparr> \<and>
   is_latest \<lparr>hdr = 0x13, version = 10, size_f = 2, alloc_size = 4, big_next = None,
              value_start = [97, 97, 0, 0]\<rparr> \<and>
   is_big_type \<lparr>hdr = 0x13, version = 10, size_f = 2, alloc_size = 4, big_next = None,
              value_start = [97, 97, 0, 0]\<rparr> \<and>
   payload_bounds \<lparr>hdr = 0x13, version = 10, size_f = 2, alloc_size = 4, big_next = None,
              value_start = [97, 97, 0, 0]\<rparr> \<and>
   (10 :: tid_t) \<noteq> 20 \<and> 2 \<le> unat (4 :: node_size_type) \<and>
   (\<exists>H' n'.
      write_record_at [\<lparr>hdr = 0x13, version = 10, size_f = 2, alloc_size = 4, big_next = None,
                        value_start = [97, 97, 0, 0]\<rparr>] 0 (=) 20 [98, 98] 2
        = Inr (H', True, None) \<and>
      unlock (H' ! 0) = Inr n' \<and>
      stable_read (H'[0 := n']) 0 20 77 [1, 2, 3] 1024 = Some (Inr (True, 20, [98, 98])) \<and>
      stable_read (H'[0 := n']) 0 15 77 [1, 2, 3] 1024 = Some (Inr (True, 10, [97, 97])) \<and>
      stable_read (H'[0 := n']) 0 5 77 [1, 2, 3] 1024 = Some (Inr (True, 0, [])))"
proof -
  let ?u = "\<lparr>hdr = 0x12, version = 10, size_f = 2, alloc_size = 4, big_next = None,
         value_start = [97, 97, 0, 0]\<rparr>"
  let ?n = "\<lparr>hdr = 0x13, version = 10, size_f = 2, alloc_size = 4, big_next = None,
         value_start = [97, 97, 0, 0]\<rparr>"
  note defs = is_locked_def is_latest_def is_big_type_def payload_bounds_def hdr_tests hdr_masks
  have l: "lock ?u = Some (Inr (?n, 0x13))"
    using lock_eq [of ?u] by (simp add: defs)
  have h: "is_locked ?n" "is_latest ?n" "is_big_type ?n" "payload_bounds ?n"
    by (simp_all add: defs)
  have "\<exists>H' spill n'.
     write_record_at [?n] 0 (=) 20 [98, 98] 2 = Inr (H', True, None) \<and>
     H' = ([?n] @ [spill])[0 := ?n\<lparr>big_next := Some (length [?n]), version := 20,
                                   size_f := of_nat 2,
                                   value_start := take 2 [98, 98] @ drop 2 (value_start ?n)\<rparr>] \<and>
     unat (of_nat 2 :: node_size_type) = 2 \<and>
     is_big_type spill \<and> \<not> is_latest spill \<and> \<not> is_locked spill \<and>
     version spill = version ?n \<and> size_f spill = size_f ?n \<and>
     take (unat (size_f ?n)) (value_start spill) = take (unat (size_f ?n)) (value_start ?n) \<and>
     big_next spill = big_next ?n \<and> payload_bounds spill \<and>
     unlock (H' ! 0) = Inr n' \<and>
     (\<forall>t' max_len s0 r0. 0 < max_len \<longrightarrow>
        (20 \<le> t' \<longrightarrow>
           stable_read (H'[0 := n']) 0 t' s0 r0 max_len =
             Some (Inr (True, 20, take (min 2 max_len) [98, 98]))) \<and>
        (t' < 20 \<and> version ?n \<le> t' \<longrightarrow>
           stable_read (H'[0 := n']) 0 t' s0 r0 max_len =
             Some (Inr (True, version ?n,
                        take (min (unat (size_f ?n)) max_len) (value_start ?n)))) \<and>
        (t' < 20 \<and> t' < version ?n \<and> big_next ?n = None \<longrightarrow>
           stable_read (H'[0 := n']) 0 t' s0 r0 max_len =
             Some (Inr (True, MIN_TID, []))))"
    by (rule spill_keeps_old_version [OF _ _ h(1,2,3) _ _ h(4)]) simp_all
  then obtain H' n' where
    w: "write_record_at [?n] 0 (=) 20 [98, 98] 2 = Inr (H', True, None)" and
    u: "unlock (H' ! 0) = Inr n'" and
    rd: "\<forall>t' max_len s0 r0. 0 < max_len \<longrightarrow>
        (20 \<le> t' \<longrightarrow>
           stable_read (H'[0 := n']) 0 t' s0 r0 max_len =
             Some (Inr (True, 20, take (min 2 max_len) [98, 98]))) \<and>
        (t' < 20 \<and> version ?n \<le> t' \<longrightarrow>
           stable_read (H'[0 := n']) 0 t' s0 r0 max_len =
             Some (Inr (True, version ?n,
                        take (min (unat (size_f ?n)) max_len) (value_start ?n)))) \<and>
        (t' < 20 \<and> t' < version ?n \<and> big_next ?n = None \<longrightarrow>
           stable_read (H'[0 := n']) 0 t' s0 r0 max_len =
             Some (Inr (True, MIN_TID, [])))"
    by blast
  have r1: "stable_read (H'[0 := n']) 0 20 77 [1, 2, 3] 1024 = Some (Inr (True, 20, [98, 98]))"
    using rd [rule_format, of 1024 20 77 "[1, 2, 3]"] by simp
  have r2: "stable_read (H'[0 := n']) 0 15 77 [1, 2, 3] 1024 = Some (Inr (True, 10, [97, 97]))"
    using rd [rule_format, of 1024 15 77 "[1, 2, 3]"] by simp
  have r3: "stable_read (H'[0 := n']) 0 5 77 [1, 2, 3] 1024 = Some (Inr (True, 0, []))"
    using rd [rule_format, of 1024 5 77 "[1, 2, 3]"] by (simp add: MIN_TID_def)
  from l h w u r1 r2 r3 show ?thesis by auto
qed

end
